theory Spec2Isabelle
  imports Main "HOL-Library.Multiset"
begin

section \<open>Strings and paths as the Python library treats them\<close>

text \<open>
  A Python \<open>str\<close> is a \<open>string\<close> (a list of characters). The functions below are the
  library calls that \<open>transcode.py\<close> makes on strings: \<open>str.strip\<close>, \<open>str.lstrip\<close>,
  \<open>str.rstrip\<close>, \<open>str.lower\<close>, \<open>str.startswith\<close>, and from \<open>posixpath\<close>:
  \<open>join\<close>, \<open>dirname\<close>, \<open>basename\<close>, \<open>normpath\<close>, \<open>abspath\<close>.
\<close>

type_synonym path = string

definition lstrip_by :: "(char \<Rightarrow> bool) \<Rightarrow> string \<Rightarrow> string" where
  "lstrip_by P s = dropWhile P s"

definition rstrip_by :: "(char \<Rightarrow> bool) \<Rightarrow> string \<Rightarrow> string" where
  "rstrip_by P s = rev (dropWhile P (rev s))"

definition strip_by :: "(char \<Rightarrow> bool) \<Rightarrow> string \<Rightarrow> string" where
  "strip_by P s = rstrip_by P (lstrip_by P s)"

text \<open>The characters \<open>str.isspace\<close> accepts, among the code points below 256.\<close>

definition is_space :: "char \<Rightarrow> bool" where
  "is_space c \<longleftrightarrow> c \<in> set [CHR 0x09, CHR 0x0A, CHR 0x0B, CHR 0x0C, CHR 0x0D,
      CHR 0x1C, CHR 0x1D, CHR 0x1E, CHR 0x1F, CHR 0x20, CHR 0x85, CHR 0xA0]"

text \<open>\<open>s.strip()\<close> with no argument.\<close>

definition py_strip :: "string \<Rightarrow> string" where
  "py_strip s = strip_by is_space s"

definition dquote :: char where "dquote = CHR 0x22"
definition squote :: char where "squote = CHR 0x27"
definition sep :: char where "sep = CHR ''/''"

text \<open>\<open>os.path.join(a, b)\<close> for two arguments.\<close>

definition os_path_join :: "path \<Rightarrow> path \<Rightarrow> path" where
  "os_path_join a b =
     (if b \<noteq> [] \<and> hd b = sep then b
      else if a = [] \<or> last a = sep then a @ b
      else a @ [sep] @ b)"

text \<open>\<open>s.startswith(p)\<close>.\<close>

definition startswith :: "string \<Rightarrow> string \<Rightarrow> bool" where
  "startswith s p \<longleftrightarrow> take (length p) s = p"

section \<open>The file system and the configuration\<close>

text \<open>
  The file system is a finite map from path strings to file contents. Every file is named
  by one string; directories are not modelled (every parent directory exists), and an
  operation fails only for the reason the map can show: \<open>os.rename\<close> and \<open>os.remove\<close>
  raise when their source is absent, exclusive creation raises when the target is present.
\<close>

type_synonym fs = "path \<Rightarrow> string option"

record config =
  input_file :: path
  base_path :: path
  log_file :: path
  cwd :: path

definition os_path_exists :: "fs \<Rightarrow> path \<Rightarrow> bool" where
  "os_path_exists f p \<longleftrightarrow> f p \<noteq> None"

datatype error = FileNotFoundError | FileExistsError

definition os_rename :: "fs \<Rightarrow> path \<Rightarrow> path \<Rightarrow> error + fs" where
  "os_rename f src dst =
     (case f src of None \<Rightarrow> Inl FileNotFoundError
      | Some bytes \<Rightarrow> Inr ((f(src := None))(dst \<mapsto> bytes)))"

definition os_remove :: "fs \<Rightarrow> path \<Rightarrow> error + fs" where
  "os_remove f p = (case f p of None \<Rightarrow> Inl FileNotFoundError | Some _ \<Rightarrow> Inr (f(p := None)))"

section \<open>Item locks\<close>

definition lock_suffix :: string where
  "lock_suffix = ''.transcode.lock''"

text \<open>
  \<open>make_item_lock\<close>: \<open>os.open\<close> with \<open>O_CREAT | O_EXCL\<close> creates the empty marker or
  raises \<open>FileExistsError\<close>, which the function turns into \<open>None\<close>.
\<close>

definition os_open_excl :: "fs \<Rightarrow> path \<Rightarrow> error + fs" where
  "os_open_excl f p = (if os_path_exists f p then Inl FileExistsError else Inr (f(p \<mapsto> [])))"

definition make_item_lock :: "fs \<Rightarrow> path \<Rightarrow> path option \<times> fs" where
  "make_item_lock f p =
     (let lock_path = p @ lock_suffix in
      case os_open_excl f lock_path of
        Inr f' \<Rightarrow> (Some lock_path, f')
      | Inl _ \<Rightarrow> (None, f))"

text \<open>
  \<open>release_item_lock\<close>: the marker is removed when the handle is a non-empty string and
  the file exists; every exception is swallowed, so the function always returns a state.
\<close>

definition release_item_lock :: "fs \<Rightarrow> path \<Rightarrow> fs" where
  "release_item_lock f lock_path =
     (if lock_path \<noteq> [] \<and> os_path_exists f lock_path
      then (case os_remove f lock_path of Inr f' \<Rightarrow> f' | Inl _ \<Rightarrow> f)
      else f)"

section \<open>The job list\<close>

text \<open>
  The list file is opened in text mode, so \<open>for ln in f\<close> ends a line at a line feed, a
  carriage return or the pair of them. Each line is stripped and blank lines are dropped:
  \<open>[ln.strip() for ln in f if ln.strip()]\<close>.
\<close>

definition is_newline :: "char \<Rightarrow> bool" where
  "is_newline c \<longleftrightarrow> c = CHR 0x0A \<or> c = CHR 0x0D"

fun split_on :: "(char \<Rightarrow> bool) \<Rightarrow> string \<Rightarrow> string list" where
  "split_on P [] = [[]]"
| "split_on P (c # cs) =
     (if P c then [] # split_on P cs
      else (case split_on P cs of
              [] \<Rightarrow> [[c]]
            | w # ws \<Rightarrow> (c # w) # ws))"

definition read_lines :: "string \<Rightarrow> string list" where
  "read_lines content = filter (\<lambda>l. l \<noteq> []) (map py_strip (split_on is_newline content))"

text \<open>\<open>for ln in lines: f.write(ln + "\n")\<close> after \<open>f.seek(0)\<close>, then \<open>f.truncate()\<close>.\<close>

definition write_lines :: "string list \<Rightarrow> string" where
  "write_lines ls = concat (map (\<lambda>l. l @ [CHR 0x0A]) ls)"

text \<open>Lines 94 and 95: the quotes are stripped, then the path is joined to the base.\<close>

definition clean_rel :: "string \<Rightarrow> string" where
  "clean_rel rel = strip_by (\<lambda>c. c = squote) (strip_by (\<lambda>c. c = dquote) rel)"

definition full_path_of :: "config \<Rightarrow> string \<Rightarrow> path" where
  "full_path_of cfg rel = os_path_join (base_path cfg) (lstrip_by (\<lambda>c. c = sep) (clean_rel rel))"

text \<open>
  The \<open>for idx, rel in enumerate(lines)\<close> loop: the first line whose marker can be
  created is chosen, with its index, cleaned line, full path and lock path.
\<close>

fun scan_lines :: "config \<Rightarrow> fs \<Rightarrow> nat \<Rightarrow> string list \<Rightarrow>
    (nat \<times> string \<times> path \<times> path) option \<times> fs" where
  "scan_lines cfg f idx [] = (None, f)"
| "scan_lines cfg f idx (rel # rest) =
     (let rel_clean = clean_rel rel;
          full_path = os_path_join (base_path cfg) (lstrip_by (\<lambda>c. c = sep) rel_clean)
      in case make_item_lock f full_path of
           (Some lock_path, f') \<Rightarrow> (Some (idx, rel_clean, full_path, lock_path), f')
         | (None, f') \<Rightarrow> scan_lines cfg f' (Suc idx) rest)"

text \<open>\<open>del lines[i]\<close>.\<close>

definition del_at :: "nat \<Rightarrow> 'a list \<Rightarrow> 'a list" where
  "del_at i xs = take i xs @ drop (Suc i) xs"

text \<open>
  \<open>acquire_next_job_from_list\<close> returns the pair \<open>(job_path, lock_path)\<close>, or
  \<open>(None, None)\<close>, here \<open>None\<close>. The body runs under \<open>list_file_lock\<close> and the \<open>flock\<close> on
  the list file, so it is one step on the file system.
\<close>

definition acquire_next_job_from_list :: "config \<Rightarrow> fs \<Rightarrow> (path \<times> path) option \<times> fs" where
  "acquire_next_job_from_list cfg f =
     (case f (input_file cfg) of
        None \<Rightarrow> (None, f)
      | Some content \<Rightarrow>
          (let lines = read_lines content in
           if lines = [] then (None, f(input_file cfg \<mapsto> []))
           else (case scan_lines cfg f 0 lines of
                   (None, f') \<Rightarrow> (None, f')
                 | (Some (chosen_index, chosen_rel, chosen_full, chosen_lock), f') \<Rightarrow>
                     (Some (chosen_full, chosen_lock),
                      f'(input_file cfg \<mapsto> write_lines (del_at chosen_index lines))))))"

section \<open>More of \<open>posixpath\<close>\<close>

text \<open>\<open>os.path.basename\<close> and \<open>os.path.dirname\<close>: the path is cut after its last separator.\<close>

definition os_path_basename :: "path \<Rightarrow> path" where
  "os_path_basename p = rev (takeWhile (\<lambda>c. c \<noteq> sep) (rev p))"

definition os_path_dirname :: "path \<Rightarrow> path" where
  "os_path_dirname p =
     (let head = rev (dropWhile (\<lambda>c. c \<noteq> sep) (rev p)) in
      if head \<noteq> [] \<and> \<not> list_all (\<lambda>c. c = sep) head
      then rstrip_by (\<lambda>c. c = sep) head else head)"

text \<open>
  \<open>os.path.normpath\<close>: empty and \<open>.\<close> components are dropped, \<open>..\<close> removes the component
  before it, and exactly two leading separators are kept as two.
\<close>

definition norm_step :: "bool \<Rightarrow> string list \<Rightarrow> string \<Rightarrow> string list" where
  "norm_step initial new_comps cmp =
     (if cmp = [] \<or> cmp = ''.'' then new_comps
      else if cmp \<noteq> ''..'' \<or> (\<not> initial \<and> new_comps = [])
              \<or> (new_comps \<noteq> [] \<and> last new_comps = ''..'')
      then new_comps @ [cmp]
      else if new_comps \<noteq> [] then butlast new_comps
      else new_comps)"

fun join_with :: "char \<Rightarrow> string list \<Rightarrow> string" where
  "join_with c [] = []"
| "join_with c [w] = w"
| "join_with c (w # v # ws) = w @ c # join_with c (v # ws)"

definition os_path_normpath :: "path \<Rightarrow> path" where
  "os_path_normpath p =
     (if p = [] then ''.''
      else
        let initial_slashes =
              (if startswith p ''/''
               then (if startswith p ''//'' \<and> \<not> startswith p ''///'' then 2 else 1)
               else (0::nat));
            comps = foldl (norm_step (initial_slashes \<noteq> 0)) [] (split_on (\<lambda>c. c = sep) p);
            r = replicate initial_slashes sep @ join_with sep comps
        in if r = [] then ''.'' else r)"

text \<open>\<open>os.path.abspath\<close>, with the working directory of the process taken from the configuration.\<close>

definition os_path_abspath :: "config \<Rightarrow> path \<Rightarrow> path" where
  "os_path_abspath cfg p =
     os_path_normpath (if startswith p ''/'' then p else os_path_join (cwd cfg) p)"

section \<open>The external processes\<close>

text \<open>
  \<open>ffprobe\<close> and \<open>ffmpeg\<close> are opaque. \<open>ffprobe\<close> reads a file and prints text, or exits
  with an error (\<open>None\<close>, the \<open>CalledProcessError\<close>). \<open>ffmpeg\<close> reads its input file and
  reports an exit status (\<open>True\<close> for 0) and what it wrote at the output path, if anything;
  without an input file it exits with an error and writes nothing.
\<close>

record externals =
  ffprobe :: "path \<Rightarrow> string \<Rightarrow> string option"
  ffmpeg :: "path \<Rightarrow> string \<Rightarrow> bool \<times> string option"

definition lower_char :: "char \<Rightarrow> char" where
  "lower_char c =
     (let n = (of_char c :: nat) in
      if (65 \<le> n \<and> n \<le> 90) \<or> (192 \<le> n \<and> n \<le> 222 \<and> n \<noteq> 215)
      then char_of (n + 32) else c)"

definition py_lower :: "string \<Rightarrow> string" where
  "py_lower s = map lower_char s"

definition get_video_codec :: "externals \<Rightarrow> fs \<Rightarrow> path \<Rightarrow> string option" where
  "get_video_codec ext f file_path =
     (case f file_path of
        None \<Rightarrow> None
      | Some bytes \<Rightarrow>
          (case ffprobe ext file_path bytes of
             None \<Rightarrow> None
           | Some out \<Rightarrow>
               (let codec = py_lower (py_strip out) in
                if codec \<noteq> [] then Some codec else None)))"

definition inefficient_codecs :: "string set" where
  "inefficient_codecs = {''h264'', ''mpeg4'', ''vc1''}"

text \<open>\<open>subprocess.run(ffmpeg_cmd, check=True)\<close>: the exit status and the file system after it.\<close>

definition run_ffmpeg :: "externals \<Rightarrow> fs \<Rightarrow> path \<Rightarrow> path \<Rightarrow> bool \<times> fs" where
  "run_ffmpeg ext f src out =
     (case f src of
        None \<Rightarrow> (False, f)
      | Some bytes \<Rightarrow>
          (case ffmpeg ext src bytes of
             (ok, None) \<Rightarrow> (ok, f)
           | (ok, Some written) \<Rightarrow> (ok, f(out \<mapsto> written))))"

section \<open>The transcode pipeline\<close>

definition backup_path_of :: "config \<Rightarrow> path \<Rightarrow> path" where
  "backup_path_of cfg p = os_path_abspath cfg p @ ''.old''"

definition temp_output_of :: "config \<Rightarrow> path \<Rightarrow> path" where
  "temp_output_of cfg p =
     (let original_path = os_path_abspath cfg p in
      os_path_join (os_path_dirname original_path)
        (''.'' @ os_path_basename original_path @ ''.tmp.mkv''))"

text \<open>The \<open>except subprocess.CalledProcessError\<close> handler of \<open>transcode_file\<close>.\<close>

definition rollback :: "fs \<Rightarrow> path \<Rightarrow> path \<Rightarrow> path \<Rightarrow> fs" where
  "rollback f original_path backup_path temp_output =
     (let f1 = (if os_path_exists f backup_path
                then (case os_rename f backup_path original_path of Inr g \<Rightarrow> g | Inl _ \<Rightarrow> f)
                else f)
      in if os_path_exists f1 temp_output
         then (case os_remove f1 temp_output of Inr g \<Rightarrow> g | Inl _ \<Rightarrow> f1)
         else f1)"

text \<open>
  \<open>transcode_file\<close> returns \<open>Inr True\<close> or \<open>Inr False\<close>, or \<open>Inl e\<close> when an exception
  leaves the function: the \<open>try\<close> around \<open>ffmpeg\<close> and the two commit calls catches
  \<open>CalledProcessError\<close> only.
\<close>

definition transcode_file :: "config \<Rightarrow> externals \<Rightarrow> fs \<Rightarrow> path \<Rightarrow> (error + bool) \<times> fs" where
  "transcode_file cfg ext f p =
     (if \<not> os_path_exists f p then (Inr False, f)
      else case get_video_codec ext f p of
        None \<Rightarrow> (Inr False, f)
      | Some codec \<Rightarrow>
          if codec \<notin> inefficient_codecs then (Inr True, f)
          else
            let original_path = os_path_abspath cfg p;
                backup_path = backup_path_of cfg p;
                temp_output = temp_output_of cfg p
            in case os_rename f original_path backup_path of
                 Inl _ \<Rightarrow> (Inr False, f)
               | Inr f1 \<Rightarrow>
                   (case run_ffmpeg ext f1 backup_path temp_output of
                      (True, f2) \<Rightarrow>
                        (case os_rename f2 temp_output original_path of
                           Inl e \<Rightarrow> (Inl e, f2)
                         | Inr f3 \<Rightarrow>
                             (case os_remove f3 backup_path of
                                Inl e \<Rightarrow> (Inl e, f3)
                              | Inr f4 \<Rightarrow> (Inr True, f4)))
                    | (False, f2) \<Rightarrow>
                        (Inr False, rollback f2 original_path backup_path temp_output)))"

section \<open>The worker\<close>

text \<open>\<open>log_failure\<close>: the path and a line feed are appended; every exception is swallowed.\<close>

definition log_failure :: "config \<Rightarrow> fs \<Rightarrow> string \<Rightarrow> fs" where
  "log_failure cfg f p =
     f(log_file cfg \<mapsto> (case f (log_file cfg) of None \<Rightarrow> [] | Some old \<Rightarrow> old) @ p @ [CHR 0x0A])"

text \<open>Lines 217 to 219: the path written to the failure log.\<close>

definition rel_of :: "config \<Rightarrow> path \<Rightarrow> string" where
  "rel_of cfg job_path =
     (let b = rstrip_by (\<lambda>c. c = sep) (base_path cfg) in
      if startswith job_path (b @ ''/'') then drop (length b + 1) job_path else job_path)"

text \<open>The body of the \<open>try\<close> in \<open>worker\<close>.\<close>

definition process_job :: "config \<Rightarrow> externals \<Rightarrow> fs \<Rightarrow> path \<Rightarrow> (error + unit) \<times> fs" where
  "process_job cfg ext f job_path =
     (case transcode_file cfg ext f job_path of
        (Inl e, f1) \<Rightarrow> (Inl e, f1)
      | (Inr ok, f1) \<Rightarrow>
          (Inr (), if \<not> ok then log_failure cfg f1 (rel_of cfg job_path) else f1))"

text \<open>The job that a result of \<open>acquire_next_job_from_list\<close> names, if any.\<close>

definition claimed_by :: "(path \<times> path) option \<Rightarrow> path list" where
  "claimed_by r = (case r of None \<Rightarrow> [] | Some (j, l) \<Rightarrow> [j])"

text \<open>The \<open>try\<close> with its \<open>finally\<close>: an exception still leaves the function after the release.\<close>

definition run_job :: "config \<Rightarrow> externals \<Rightarrow> fs \<Rightarrow> path \<Rightarrow> path \<Rightarrow> (error + unit) \<times> fs" where
  "run_job cfg ext f job_path lock_path =
     (case process_job cfg ext f job_path of
        (r, f1) \<Rightarrow> (r, release_item_lock f1 lock_path))"

text \<open>\<open>any(ln.strip() for ln in f)\<close> on the list file, \<open>False\<close> when the file is absent.\<close>

definition remaining :: "config \<Rightarrow> fs \<Rightarrow> bool" where
  "remaining cfg f =
     (case f (input_file cfg) of None \<Rightarrow> False | Some content \<Rightarrow> read_lines content \<noteq> [])"

section \<open>The worker pool\<close>

text \<open>
  Where a worker stands in its loop: before the first \<open>acquire_next_job_from_list\<close> of a
  round, before the second one (after the sleep), before the check of the list file, with a
  claimed job and its lock, after the \<open>try\<close> body (before the \<open>finally\<close>, the flag says an
  exception is on its way out), returned from \<open>worker\<close>, or ended by an exception.
\<close>

datatype wstate =
    Top
  | Retry
  | Check
  | Holding path path
  | Releasing path bool
  | Exited
  | Died

record pool =
  fsys :: fs
  workers :: "wstate list"
  claims :: "path list"
  attempts :: "path list"

text \<open>
  One step of one worker. The workers share nothing but the file system, so a run of the
  pool is an interleaving of such steps. A call of \<open>acquire_next_job_from_list\<close> is one
  step (it holds both locks of the list file), and so are the body of the \<open>try\<close> and the
  release. The external processes may answer differently at every call. \<open>claims\<close>
  records the jobs that calls of \<open>acquire_next_job_from_list\<close> returned and \<open>attempts\<close> the
  arguments of the calls of \<open>transcode_file\<close>, both in order.
\<close>

inductive pool_step :: "config \<Rightarrow> pool \<Rightarrow> pool \<Rightarrow> bool" for cfg :: config where
  acquire_first:
    "w < length (workers s) \<Longrightarrow> workers s ! w = Top \<Longrightarrow>
     acquire_next_job_from_list cfg (fsys s) = (r, f') \<Longrightarrow>
     pool_step cfg s (s\<lparr>fsys := f',
        workers := (workers s)[w := (case r of None \<Rightarrow> Retry | Some (j, l) \<Rightarrow> Holding j l)],
        claims := claims s @ claimed_by r\<rparr>)"
| acquire_second:
    "w < length (workers s) \<Longrightarrow> workers s ! w = Retry \<Longrightarrow>
     acquire_next_job_from_list cfg (fsys s) = (r, f') \<Longrightarrow>
     pool_step cfg s (s\<lparr>fsys := f',
        workers := (workers s)[w := (case r of None \<Rightarrow> Check | Some (j, l) \<Rightarrow> Holding j l)],
        claims := claims s @ claimed_by r\<rparr>)"
| check_list:
    "w < length (workers s) \<Longrightarrow> workers s ! w = Check \<Longrightarrow>
     pool_step cfg s (s\<lparr>workers := (workers s)[w := (if remaining cfg (fsys s) then Top else Exited)]\<rparr>)"
| process:
    "w < length (workers s) \<Longrightarrow> workers s ! w = Holding j l \<Longrightarrow>
     process_job cfg ext (fsys s) j = (r, f') \<Longrightarrow>
     pool_step cfg s (s\<lparr>fsys := f', workers := (workers s)[w := Releasing l (isl r)],
        attempts := attempts s @ [j]\<rparr>)"
| release:
    "w < length (workers s) \<Longrightarrow> workers s ! w = Releasing l d \<Longrightarrow>
     pool_step cfg s (s\<lparr>fsys := release_item_lock (fsys s) l,
        workers := (workers s)[w := (if d then Died else Top)]\<rparr>)"

text \<open>\<open>main\<close> starts \<open>W\<close> workers on the file system it finds.\<close>

definition initial_pool :: "fs \<Rightarrow> nat \<Rightarrow> pool" where
  "initial_pool f W = \<lparr>fsys = f, workers = replicate W Top, claims = [], attempts = []\<rparr>"

inductive reachable :: "config \<Rightarrow> fs \<Rightarrow> nat \<Rightarrow> pool \<Rightarrow> bool" for cfg :: config and f0 :: fs and W :: nat where
  start: "reachable cfg f0 W (initial_pool f0 W)"
| step: "reachable cfg f0 W s \<Longrightarrow> pool_step cfg s t \<Longrightarrow> reachable cfg f0 W t"

section \<open>Notions used to state the properties\<close>

text \<open>The marker that guards a line of the list.\<close>

definition lock_path_of :: "config \<Rightarrow> string \<Rightarrow> path" where
  "lock_path_of cfg rel = full_path_of cfg rel @ lock_suffix"

text \<open>A string that neither starts nor ends with a character of the class \<open>P\<close>.\<close>

definition stripped_ok :: "(char \<Rightarrow> bool) \<Rightarrow> string \<Rightarrow> bool" where
  "stripped_ok P s \<longleftrightarrow> s = [] \<or> (\<not> P (hd s) \<and> \<not> P (last s))"


text \<open>A line as \<open>read_lines\<close> returns it: not blank, stripped, without a line end inside.\<close>

definition clean_line :: "string \<Rightarrow> bool" where
  "clean_line l \<longleftrightarrow> l \<noteq> [] \<and> py_strip l = l \<and> (\<forall>c \<in> set l. \<not> is_newline c)"

text \<open>The files that the handling of one job may write: the three of the pipeline and the log.\<close>

definition job_files :: "config \<Rightarrow> path \<Rightarrow> path list" where
  "job_files cfg job =
     [os_path_abspath cfg job, backup_path_of cfg job, temp_output_of cfg job, log_file cfg]"

subsection \<open>Concrete inputs\<close>

definition ex_cfg :: config where
  "ex_cfg = \<lparr>input_file = ''list.txt'', base_path = ''/data'', log_file = ''fail.log'', cwd = ''/''\<rparr>"

definition ex_fs_two :: fs where
  "ex_fs_two = [''list.txt'' \<mapsto> ''a.mkv\<newline>/b.mkv\<newline>'', ''/data/a.mkv.transcode.lock'' \<mapsto> []]"

definition ex_fs_locked :: fs where
  "ex_fs_locked = [''list.txt'' \<mapsto> ''a.mkv\<newline>'', ''/data/a.mkv.transcode.lock'' \<mapsto> []]"


definition ex_media :: fs where
  "ex_media = [''/data/a.mkv'' \<mapsto> ''original bytes'']"


definition ex_ext_hevc :: externals where
  "ex_ext_hevc = \<lparr>ffprobe = (\<lambda>_ _. Some ''hevc\<newline>''), ffmpeg = (\<lambda>_ _. (True, Some ''new''))\<rparr>"

definition ex_ext_no_output :: externals where
  "ex_ext_no_output = \<lparr>ffprobe = (\<lambda>_ _. Some ''h264\<newline>''), ffmpeg = (\<lambda>_ _. (True, None))\<rparr>"

definition ex_media_locked :: fs where
  "ex_media_locked = [''/data/a.mkv'' \<mapsto> ''original bytes'', ''/data/a.mkv.transcode.lock'' \<mapsto> []]"

definition ex_fs_run :: fs where
  "ex_fs_run = [''list.txt'' \<mapsto> ''a.mkv\<newline>'', ''/data/a.mkv'' \<mapsto> ''original bytes'']"

definition ex_fs_claimed :: fs where
  "ex_fs_claimed = [''list.txt'' \<mapsto> [], ''/data/a.mkv'' \<mapsto> ''original bytes'',
     ''/data/a.mkv.transcode.lock'' \<mapsto> []]"

definition ex_fs_done :: fs where
  "ex_fs_done = [''list.txt'' \<mapsto> [], ''/data/a.mkv'' \<mapsto> ''original bytes'']"

definition ex_final :: pool where
  "ex_final = \<lparr>fsys = ex_fs_done, workers = [Exited], claims = [''/data/a.mkv''],
     attempts = [''/data/a.mkv'']\<rparr>"

subsection \<open>The invariant of the pool\<close>

text \<open>The job and the lock that a worker holds in a given state of its loop.\<close>

fun job_of :: "wstate \<Rightarrow> path list" where
  "job_of (Holding j l) = [j]"
| "job_of _ = []"

fun lock_of :: "wstate \<Rightarrow> path list" where
  "lock_of (Holding j l) = [l]"
| "lock_of (Releasing l d) = [l]"
| "lock_of _ = []"

text \<open>The jobs claimed and not yet passed to \<open>transcode_file\<close>.\<close>

definition held :: "wstate list \<Rightarrow> path multiset" where
  "held ws = mset (concat (map job_of ws))"

text \<open>
  The list file and the markers of the listed lines are none of the files that the handling
  of a listed job may write.
\<close>

definition separate_files :: "config \<Rightarrow> string list \<Rightarrow> bool" where
  "separate_files cfg lines \<longleftrightarrow>
     (\<forall>l \<in> set lines. \<forall>p \<in> set (job_files cfg (full_path_of cfg l)).
        p \<noteq> input_file cfg \<and> (\<forall>l' \<in> set lines. p \<noteq> lock_path_of cfg l'))"

text \<open>
  What every reachable state of the pool satisfies: the list file exists; the lines still
  listed, the jobs held and the jobs attempted are together the lines of the start; no
  held lock is the list file; once a worker has returned the list is empty; an empty list
  is an empty file; and a marker of a listed line exists only while a worker holds it or
  while a line with that marker is still listed.
\<close>

definition pool_inv :: "config \<Rightarrow> string list \<Rightarrow> fs \<Rightarrow> wstate list \<Rightarrow> path list \<Rightarrow> bool" where
  "pool_inv cfg lines0 f ws as \<longleftrightarrow>
     (\<exists>content. f (input_file cfg) = Some content
        \<and> mset (map (full_path_of cfg) (read_lines content)) + held ws + mset as
            = mset (map (full_path_of cfg) lines0)
        \<and> set (read_lines content) \<subseteq> set lines0
        \<and> (\<forall>w < length ws. \<forall>l \<in> set (lock_of (ws ! w)). l \<noteq> input_file cfg)
        \<and> (Exited \<in> set ws \<longrightarrow> read_lines content = [])
        \<and> (read_lines content = [] \<longrightarrow> lines0 = [] \<or> content = [])
        \<and> (\<forall>l \<in> set lines0. f (lock_path_of cfg l) \<noteq> None \<longrightarrow>
              (\<exists>w < length ws. lock_path_of cfg l \<in> set (lock_of (ws ! w)))
            \<or> (\<exists>l' \<in> set (read_lines content). lock_path_of cfg l' = lock_path_of cfg l)))"

section \<open>Stripping\<close>

lemma lstrip_by_id: "s = [] \<or> \<not> P (hd s) \<Longrightarrow> lstrip_by P s = s"
  by (cases s) (auto simp: lstrip_by_def)

lemma rstrip_by_id: "s = [] \<or> \<not> P (last s) \<Longrightarrow> rstrip_by P s = s"
proof -
  assume a: "s = [] \<or> \<not> P (last s)"
  have "dropWhile P (rev s) = rev s"
    using a by (cases "rev s") (auto simp: last_rev[symmetric] simp del: last_rev)
  then show ?thesis by (simp add: rstrip_by_def)
qed

lemma strip_by_id: "stripped_ok P s \<Longrightarrow> strip_by P s = s"
  by (auto simp: stripped_ok_def strip_by_def lstrip_by_id rstrip_by_id)

lemma lstrip_by_hd: "lstrip_by P s \<noteq> [] \<Longrightarrow> \<not> P (hd (lstrip_by P s))"
  unfolding lstrip_by_def by (rule hd_dropWhile)

lemma rstrip_by_last: "rstrip_by P s \<noteq> [] \<Longrightarrow> \<not> P (last (rstrip_by P s))"
  unfolding rstrip_by_def using hd_dropWhile[of P "rev s"] by (simp add: last_rev)

lemma rstrip_by_prefix: "\<exists>t. s = rstrip_by P s @ t"
proof -
  have "rev s = takeWhile P (rev s) @ dropWhile P (rev s)" by simp
  then have "s = rev (dropWhile P (rev s)) @ rev (takeWhile P (rev s))"
    by (metis rev_append rev_rev_ident)
  then show ?thesis unfolding rstrip_by_def by blast
qed

lemma rstrip_by_hd: "rstrip_by P s \<noteq> [] \<Longrightarrow> hd (rstrip_by P s) = hd s"
  using rstrip_by_prefix[of s P] by (metis hd_append2)

lemma strip_by_ok: "stripped_ok P (strip_by P s)"
proof (cases "rstrip_by P (lstrip_by P s) = []")
  case True
  then show ?thesis by (simp add: stripped_ok_def strip_by_def)
next
  case False
  then have ne: "lstrip_by P s \<noteq> []" by (auto simp: rstrip_by_def)
  have "\<not> P (last (rstrip_by P (lstrip_by P s)))" using False by (rule rstrip_by_last)
  moreover have "hd (rstrip_by P (lstrip_by P s)) = hd (lstrip_by P s)"
    using False by (rule rstrip_by_hd)
  moreover have "\<not> P (hd (lstrip_by P s))" using ne by (rule lstrip_by_hd)
  ultimately show ?thesis by (simp add: stripped_ok_def strip_by_def)
qed

lemma strip_by_idem: "strip_by P (strip_by P s) = strip_by P s"
  by (rule strip_by_id[OF strip_by_ok])

lemma set_lstrip_by: "set (lstrip_by P s) \<subseteq> set s"
  unfolding lstrip_by_def by (rule set_dropWhileD[THEN subsetI]) 

lemma set_rstrip_by: "set (rstrip_by P s) \<subseteq> set s"
  unfolding rstrip_by_def using set_dropWhileD[of _ P "rev s"] by auto

lemma set_strip_by: "set (strip_by P s) \<subseteq> set s"
  unfolding strip_by_def using set_lstrip_by set_rstrip_by by blast


section \<open>Reading back what was written\<close>

lemma split_on_ne: "split_on P s \<noteq> []"
  by (induction s) (auto split: list.splits)

lemma split_on_no_sep: "\<forall>w \<in> set (split_on P s). \<forall>c \<in> set w. \<not> P c"
  by (induction s) (auto split: list.splits)

lemma split_on_line:
  "\<forall>c \<in> set l. \<not> P c \<Longrightarrow> P n \<Longrightarrow> split_on P (l @ n # rest) = l # split_on P rest"
  by (induction l) (auto split: list.splits)

lemma split_on_write_lines:
  "\<forall>l \<in> set ls. \<forall>c \<in> set l. \<not> is_newline c \<Longrightarrow>
     split_on is_newline (write_lines ls) = ls @ [[]]"
proof (induction ls)
  case Nil
  then show ?case by (simp add: write_lines_def)
next
  case (Cons l ls)
  have nl: "is_newline (CHR 0x0A)" by (simp add: is_newline_def)
  have "write_lines (l # ls) = l @ CHR 0x0A # write_lines ls" by (simp add: write_lines_def)
  moreover have "\<forall>c \<in> set l. \<not> is_newline c" using Cons.prems by simp
  ultimately have "split_on is_newline (write_lines (l # ls)) = l # split_on is_newline (write_lines ls)"
    using split_on_line[of l is_newline "CHR 0x0A" "write_lines ls"] nl by simp
  with Cons show ?case by simp
qed

lemma py_strip_Nil: "py_strip [] = []"
  by (simp add: py_strip_def strip_by_def lstrip_by_def rstrip_by_def)

lemma read_write_lines:
  assumes "\<forall>l \<in> set ls. clean_line l"
  shows "read_lines (write_lines ls) = ls"
proof -
  have "split_on is_newline (write_lines ls) = ls @ [[]]"
    using assms by (intro split_on_write_lines) (simp add: clean_line_def)
  moreover have "map py_strip ls = ls" using assms by (induction ls) (auto simp: clean_line_def)
  moreover have "filter (\<lambda>l. l \<noteq> []) ls = ls" using assms by (induction ls) (auto simp: clean_line_def)
  ultimately show ?thesis by (simp add: read_lines_def py_strip_Nil)
qed

lemma read_lines_clean: "\<forall>l \<in> set (read_lines content). clean_line l"
proof
  fix l assume "l \<in> set (read_lines content)"
  then obtain w where w: "w \<in> set (split_on is_newline content)" "l = py_strip w" "l \<noteq> []"
    by (auto simp: read_lines_def)
  have "py_strip l = l" using w(2) by (simp add: py_strip_def strip_by_idem)
  moreover have "\<forall>c \<in> set l. \<not> is_newline c"
    using split_on_no_sep[of is_newline content] w(1,2) set_strip_by[of is_space w]
    by (auto simp: py_strip_def)
  ultimately show "clean_line l" using w(3) by (simp add: clean_line_def)
qed

lemma set_del_at: "set (del_at i xs) \<subseteq> set xs"
  unfolding del_at_def using set_take_subset[of i xs] set_drop_subset[of "Suc i" xs] by auto

lemma read_write_del_at:
  "read_lines (write_lines (del_at i (read_lines content))) = del_at i (read_lines content)"
  using read_lines_clean[of content] set_del_at[of i "read_lines content"]
  by (intro read_write_lines) blast

section \<open>The scan for a lockable line\<close>

lemma make_item_lock_cases:
  "make_item_lock f p =
     (if f (p @ lock_suffix) = None then (Some (p @ lock_suffix), f(p @ lock_suffix \<mapsto> []))
      else (None, f))"
  by (simp add: make_item_lock_def os_open_excl_def os_path_exists_def Let_def)

lemma scan_lines_None:
  "scan_lines cfg f idx ls = (None, f') \<Longrightarrow>
     f' = f \<and> (\<forall>l \<in> set ls. f (lock_path_of cfg l) \<noteq> None)"
  by (induction ls arbitrary: idx)
     (auto simp: make_item_lock_cases lock_path_of_def full_path_of_def Let_def split: if_splits)

lemma scan_lines_Some:
  "scan_lines cfg f idx ls = (Some (i, rc, full, lk), f') \<Longrightarrow>
     \<exists>k < length ls. i = idx + k \<and> rc = clean_rel (ls ! k) \<and> full = full_path_of cfg (ls ! k)
        \<and> lk = lock_path_of cfg (ls ! k) \<and> f lk = None
        \<and> (\<forall>j < k. f (lock_path_of cfg (ls ! j)) \<noteq> None) \<and> f' = f(lk \<mapsto> [])"
proof (induction ls arbitrary: idx)
  case Nil
  then show ?case by simp
next
  case (Cons rel rest)
  show ?case
  proof (cases "f (lock_path_of cfg rel) = None")
    case True
    with Cons.prems show ?thesis
      by (auto simp: make_item_lock_cases lock_path_of_def full_path_of_def Let_def intro!: exI[of _ 0])
  next
    case False
    with Cons.prems have "scan_lines cfg f (Suc idx) rest = (Some (i, rc, full, lk), f')"
      by (auto simp: make_item_lock_cases lock_path_of_def full_path_of_def Let_def)
    from Cons.IH[OF this] obtain k where k: "k < length rest" "i = Suc idx + k"
      "rc = clean_rel (rest ! k)" "full = full_path_of cfg (rest ! k)"
      "lk = lock_path_of cfg (rest ! k)" "f lk = None"
      "\<forall>j < k. f (lock_path_of cfg (rest ! j)) \<noteq> None" "f' = f(lk \<mapsto> [])" by blast
    have "\<forall>j < Suc k. f (lock_path_of cfg ((rel # rest) ! j)) \<noteq> None"
      using False k(7) by (auto simp: less_Suc_eq_0_disj)
    with k show ?thesis by (intro exI[of _ "Suc k"]) auto
  qed
qed


section \<open>The three paths of a job are different\<close>








section \<open>What the pipeline leaves alone\<close>

lemma os_rename_frame: "os_rename f a b = Inr g \<Longrightarrow> p \<noteq> a \<Longrightarrow> p \<noteq> b \<Longrightarrow> g p = f p"
  by (auto simp: os_rename_def split: option.splits)

lemma os_remove_frame: "os_remove f a = Inr g \<Longrightarrow> p \<noteq> a \<Longrightarrow> g p = f p"
  by (auto simp: os_remove_def split: option.splits)

lemma run_ffmpeg_frame: "run_ffmpeg ext f src out = (ok, g) \<Longrightarrow> p \<noteq> out \<Longrightarrow> g p = f p"
  by (auto simp: run_ffmpeg_def split: option.splits prod.splits)

lemma rollback_frame: "p \<noteq> a \<Longrightarrow> p \<noteq> b \<Longrightarrow> p \<noteq> t \<Longrightarrow> rollback f a b t p = f p"
  by (auto simp: rollback_def Let_def os_rename_def os_remove_def os_path_exists_def split: option.splits)

lemma transcode_file_frame:
  assumes "transcode_file cfg ext f j = (r, f')"
    and "p \<noteq> os_path_abspath cfg j" "p \<noteq> backup_path_of cfg j" "p \<noteq> temp_output_of cfg j"
  shows "f' p = f p"
  using assms
  by (auto simp: transcode_file_def Let_def rollback_frame
      split: if_splits option.splits sum.splits prod.splits bool.splits
      dest!: os_rename_frame[where p = p] os_remove_frame[where p = p] run_ffmpeg_frame[where p = p])

lemma process_job_frame:
  assumes "process_job cfg ext f j = (r, f')" and "p \<notin> set (job_files cfg j)"
  shows "f' p = f p"
  using assms transcode_file_frame[of cfg ext f j _ _ p]
  by (auto simp: process_job_def job_files_def log_failure_def split: prod.splits sum.splits if_splits)


section \<open>Concrete evaluations\<close>

lemma read_lines_Nil: "read_lines [] = []"
  by (simp add: read_lines_def py_strip_Nil)

lemma ex_lines_two: "read_lines ''a.mkv\<newline>/b.mkv\<newline>'' = [''a.mkv'', ''/b.mkv'']"
  by code_simp

lemma ex_lines_one: "read_lines ''a.mkv\<newline>'' = [''a.mkv'']"
  by code_simp


lemma ex_lock_a: "lock_path_of ex_cfg ''a.mkv'' = ''/data/a.mkv.transcode.lock''"
  by code_simp


section \<open>Claims on the job list\<close>

lemma acquire_unfold:
  assumes "f (input_file cfg) = Some content" "read_lines content \<noteq> []"
  shows "acquire_next_job_from_list cfg f =
     (case scan_lines cfg f 0 (read_lines content) of
        (None, f') \<Rightarrow> (None, f')
      | (Some (i, rc, full, lk), f') \<Rightarrow>
          (Some (full, lk), f'(input_file cfg \<mapsto> write_lines (del_at i (read_lines content)))))"
  using assms by (simp add: acquire_next_job_from_list_def Let_def)

lemma acquire_all_locked:
  assumes "f (input_file cfg) = Some content" "read_lines content \<noteq> []"
    and "\<forall>l \<in> set (read_lines content). f (lock_path_of cfg l) \<noteq> None"
  shows "acquire_next_job_from_list cfg f = (None, f)"
proof -
  obtain r f' where sc: "scan_lines cfg f 0 (read_lines content) = (r, f')" by fastforce
  have "r = None"
  proof (rule ccontr)
    assume "r \<noteq> None"
    then obtain i rc full lk where "r = Some (i, rc, full, lk)" by (cases r) auto
    with scan_lines_Some[of cfg f 0 "read_lines content" i rc full lk f'] sc
    obtain k where "k < length (read_lines content)" "f (lock_path_of cfg (read_lines content ! k)) = None"
      by auto
    with assms(3) show False using nth_mem by blast
  qed
  with sc scan_lines_None[of cfg f 0 "read_lines content" f'] have "scan_lines cfg f 0 (read_lines content) = (None, f)"
    by simp
  then show ?thesis using assms(1,2) by (simp add: acquire_unfold)
qed

lemma acquire_claim:
  assumes "f (input_file cfg) = Some content"
    and "acquire_next_job_from_list cfg f = (Some (job, lk), f')"
  shows "\<exists>i < length (read_lines content).
           (\<forall>j < i. f (lock_path_of cfg (read_lines content ! j)) \<noteq> None)
         \<and> f (lock_path_of cfg (read_lines content ! i)) = None
         \<and> job = full_path_of cfg (read_lines content ! i)
         \<and> lk = lock_path_of cfg (read_lines content ! i)
         \<and> f' = (f(lk \<mapsto> []))(input_file cfg \<mapsto> write_lines (del_at i (read_lines content)))"
proof -
  have ne: "read_lines content \<noteq> []"
    using assms by (auto simp: acquire_next_job_from_list_def Let_def split: if_splits)
  obtain r g where sc: "scan_lines cfg f 0 (read_lines content) = (r, g)" by fastforce
  with assms ne obtain i rc where r: "r = Some (i, rc, job, lk)"
    and f': "f' = g(input_file cfg \<mapsto> write_lines (del_at i (read_lines content)))"
    by (auto simp: acquire_unfold split: option.splits)
  from scan_lines_Some[of cfg f 0 "read_lines content" i rc job lk g] sc r f'
  show ?thesis by auto
qed


text \<open>
  C8: when the list holds lines and the marker of every one of them exists already,
  \<open>acquire_next_job_from_list\<close> returns \<open>(None, None)\<close> and the file system, the list
  file with it, is as it was: no line is removed and nothing is rewritten.
\<close>

theorem transient_result_leaves_list_untouched:
  assumes "f (input_file cfg) = Some content" and "read_lines content \<noteq> []"
    and "\<forall>l \<in> set (read_lines content). os_path_exists f (lock_path_of cfg l)"
  shows "acquire_next_job_from_list cfg f = (None, f)"
  using assms by (intro acquire_all_locked) (auto simp: os_path_exists_def)

theorem transient_result_leaves_list_untouched_witness:
  "acquire_next_job_from_list ex_cfg ex_fs_locked = (None, ex_fs_locked)
   \<and> ex_fs_locked (input_file ex_cfg) = Some ''a.mkv\<newline>''"
proof -
  have h1: "ex_fs_locked (input_file ex_cfg) = Some ''a.mkv\<newline>''"
    by (simp add: ex_fs_locked_def ex_cfg_def)
  have h2: "read_lines ''a.mkv\<newline>'' \<noteq> []" by (simp add: ex_lines_one)
  have h3: "\<forall>l \<in> set (read_lines ''a.mkv\<newline>''). os_path_exists ex_fs_locked (lock_path_of ex_cfg l)"
    by (simp add: ex_lines_one ex_lock_a os_path_exists_def ex_fs_locked_def)
  from transient_result_leaves_list_untouched[OF h1 h2 h3] h1 show ?thesis by simp
qed

text \<open>
  C4: a call that returns a job has chosen the first line, in the order of the file, whose
  marker did not exist; the markers of all lines before it existed. The job and the lock
  are those of that line, the marker exists afterwards, and the list file holds the other
  lines, in their order: exactly the chosen line is gone.
\<close>

theorem claim_takes_first_lockable_line:
  assumes "acquire_next_job_from_list cfg f = (Some (job, lk), f')"
  shows "\<exists>content i. f (input_file cfg) = Some content \<and> i < length (read_lines content)
         \<and> (\<forall>j < i. os_path_exists f (lock_path_of cfg (read_lines content ! j)))
         \<and> \<not> os_path_exists f (lock_path_of cfg (read_lines content ! i))
         \<and> job = full_path_of cfg (read_lines content ! i)
         \<and> lk = lock_path_of cfg (read_lines content ! i)
         \<and> f' = (f(lk \<mapsto> []))(input_file cfg \<mapsto> write_lines (del_at i (read_lines content)))
         \<and> os_path_exists f' lk
         \<and> (\<exists>now. f' (input_file cfg) = Some now \<and> read_lines now = del_at i (read_lines content))"
proof -
  obtain content where c: "f (input_file cfg) = Some content"
    using assms by (auto simp: acquire_next_job_from_list_def split: option.splits)
  from acquire_claim[OF c assms] obtain i where i: "i < length (read_lines content)"
    "\<forall>j < i. f (lock_path_of cfg (read_lines content ! j)) \<noteq> None"
    "f (lock_path_of cfg (read_lines content ! i)) = None"
    "job = full_path_of cfg (read_lines content ! i)"
    "lk = lock_path_of cfg (read_lines content ! i)"
    "f' = (f(lk \<mapsto> []))(input_file cfg \<mapsto> write_lines (del_at i (read_lines content)))"
    by blast
  have ne: "lk \<noteq> input_file cfg" using c i(3,5) by auto
  have "os_path_exists f' lk" using ne i(6) by (simp add: os_path_exists_def)
  moreover have "f' (input_file cfg) = Some (write_lines (del_at i (read_lines content)))"
    using i(6) by simp
  ultimately show ?thesis using c i read_write_del_at[of i content]
    by (auto simp: os_path_exists_def)
qed

lemma ex_acquire_two:
  "acquire_next_job_from_list ex_cfg ex_fs_two =
     (Some (''/data/b.mkv'', ''/data/b.mkv.transcode.lock''),
      (ex_fs_two(''/data/b.mkv.transcode.lock'' \<mapsto> []))(''list.txt'' \<mapsto> ''a.mkv\<newline>''))"
  by (simp add: acquire_next_job_from_list_def ex_cfg_def ex_fs_two_def ex_lines_two make_item_lock_cases
      clean_rel_def strip_by_def lstrip_by_def rstrip_by_def dquote_def squote_def sep_def os_path_join_def
      lock_suffix_def write_lines_def del_at_def Let_def)

theorem claim_takes_first_lockable_line_witness:
  "\<exists>content i. ex_fs_two (input_file ex_cfg) = Some content \<and> i < length (read_lines content)
     \<and> (\<forall>j < i. os_path_exists ex_fs_two (lock_path_of ex_cfg (read_lines content ! j)))
     \<and> \<not> os_path_exists ex_fs_two (lock_path_of ex_cfg (read_lines content ! i))
     \<and> ''/data/b.mkv'' = full_path_of ex_cfg (read_lines content ! i)
     \<and> ''/data/b.mkv.transcode.lock'' = lock_path_of ex_cfg (read_lines content ! i)"
  using claim_takes_first_lockable_line[OF ex_acquire_two] by blast

section \<open>Claims on the results of a call and on path resolution\<close>

lemma ex_input: "input_file ex_cfg = ''list.txt''"
  by (simp add: ex_cfg_def)










section \<open>Claims on the pipeline\<close>

lemma ex_abspath: "os_path_abspath ex_cfg ''/data/a.mkv'' = ''/data/a.mkv''"
  by code_simp

lemma ex_backup: "backup_path_of ex_cfg ''/data/a.mkv'' = ''/data/a.mkv.old''"
  by code_simp

lemma ex_temp: "temp_output_of ex_cfg ''/data/a.mkv'' = ''/data/.a.mkv.tmp.mkv''"
  by code_simp


lemma ex_lower2: "py_lower (py_strip ''h264\<newline>'') = ''h264''"
  by code_simp

lemma ex_lower3: "py_lower (py_strip ''hevc\<newline>'') = ''hevc''"
  by code_simp

lemma ex_rel: "rel_of ex_cfg ''/data/a.mkv'' = ''a.mkv''"
  by code_simp


lemma ex_codec_hevc: "get_video_codec ex_ext_hevc ex_media ''/data/a.mkv'' = Some ''hevc''"
  by (simp add: get_video_codec_def ex_ext_hevc_def ex_media_def ex_lower3)

lemma ex_codec_no_output: "get_video_codec ex_ext_no_output ex_media_locked ''/data/a.mkv'' = Some ''h264''"
  by (simp add: get_video_codec_def ex_ext_no_output_def ex_media_locked_def ex_lower2)

lemma ex_transcode_no_output:
  "transcode_file ex_cfg ex_ext_no_output ex_media_locked ''/data/a.mkv'' =
     (Inl FileNotFoundError,
      [''/data/a.mkv.transcode.lock'' \<mapsto> [], ''/data/a.mkv.old'' \<mapsto> ''original bytes''])"
proof -
  have "os_path_exists ex_media_locked ''/data/a.mkv''"
    by (simp add: os_path_exists_def ex_media_locked_def)
  moreover have "''h264'' \<in> inefficient_codecs" by (simp add: inefficient_codecs_def)
  moreover have "os_rename ex_media_locked ''/data/a.mkv'' ''/data/a.mkv.old'' =
     Inr [''/data/a.mkv.transcode.lock'' \<mapsto> [], ''/data/a.mkv.old'' \<mapsto> ''original bytes'']"
    by (auto simp: os_rename_def ex_media_locked_def)
  moreover have "run_ffmpeg ex_ext_no_output
       [''/data/a.mkv.transcode.lock'' \<mapsto> [], ''/data/a.mkv.old'' \<mapsto> ''original bytes'']
       ''/data/a.mkv.old'' ''/data/.a.mkv.tmp.mkv'' =
     (True, [''/data/a.mkv.transcode.lock'' \<mapsto> [], ''/data/a.mkv.old'' \<mapsto> ''original bytes''])"
    by (simp add: run_ffmpeg_def ex_ext_no_output_def)
  moreover have "os_rename [''/data/a.mkv.transcode.lock'' \<mapsto> [], ''/data/a.mkv.old'' \<mapsto> ''original bytes'']
      ''/data/.a.mkv.tmp.mkv'' ''/data/a.mkv'' = Inl FileNotFoundError"
    by (simp add: os_rename_def)
  ultimately show ?thesis
    by (simp add: transcode_file_def ex_codec_no_output ex_abspath ex_backup ex_temp)
qed

lemma step_acquire_first:
  "w < length ws \<Longrightarrow> ws ! w = Top \<Longrightarrow> acquire_next_job_from_list cfg f = (r, f') \<Longrightarrow>
   pool_step cfg \<lparr>fsys = f, workers = ws, claims = cl, attempts = as\<rparr>
     \<lparr>fsys = f', workers = ws[w := (case r of None \<Rightarrow> Retry | Some (j, l) \<Rightarrow> Holding j l)],
       claims = cl @ claimed_by r, attempts = as\<rparr>"
  using pool_step.acquire_first[of w "\<lparr>fsys = f, workers = ws, claims = cl, attempts = as\<rparr>" cfg r f']
  by simp

lemma step_acquire_second:
  "w < length ws \<Longrightarrow> ws ! w = Retry \<Longrightarrow> acquire_next_job_from_list cfg f = (r, f') \<Longrightarrow>
   pool_step cfg \<lparr>fsys = f, workers = ws, claims = cl, attempts = as\<rparr>
     \<lparr>fsys = f', workers = ws[w := (case r of None \<Rightarrow> Check | Some (j, l) \<Rightarrow> Holding j l)],
       claims = cl @ claimed_by r, attempts = as\<rparr>"
  using pool_step.acquire_second[of w "\<lparr>fsys = f, workers = ws, claims = cl, attempts = as\<rparr>" cfg r f']
  by simp

lemma step_check_list:
  "w < length ws \<Longrightarrow> ws ! w = Check \<Longrightarrow>
   pool_step cfg \<lparr>fsys = f, workers = ws, claims = cl, attempts = as\<rparr>
     \<lparr>fsys = f, workers = ws[w := (if remaining cfg f then Top else Exited)],
       claims = cl, attempts = as\<rparr>"
  using pool_step.check_list[of w "\<lparr>fsys = f, workers = ws, claims = cl, attempts = as\<rparr>" cfg]
  by simp

lemma step_process:
  "w < length ws \<Longrightarrow> ws ! w = Holding j l \<Longrightarrow> process_job cfg ext f j = (r, f') \<Longrightarrow>
   pool_step cfg \<lparr>fsys = f, workers = ws, claims = cl, attempts = as\<rparr>
     \<lparr>fsys = f', workers = ws[w := Releasing l (isl r)], claims = cl, attempts = as @ [j]\<rparr>"
  using pool_step.process[of w "\<lparr>fsys = f, workers = ws, claims = cl, attempts = as\<rparr>" j l cfg ext r f']
  by simp

lemma step_release:
  "w < length ws \<Longrightarrow> ws ! w = Releasing l d \<Longrightarrow>
   pool_step cfg \<lparr>fsys = f, workers = ws, claims = cl, attempts = as\<rparr>
     \<lparr>fsys = release_item_lock f l, workers = ws[w := (if d then Died else Top)],
       claims = cl, attempts = as\<rparr>"
  using pool_step.release[of w "\<lparr>fsys = f, workers = ws, claims = cl, attempts = as\<rparr>" l d cfg]
  by simp

text \<open>
  C5 does not hold of the code: when \<open>ffmpeg\<close> exits with status 0 and has written no output,
  the rename of the temporary output raises \<open>FileNotFoundError\<close>, which neither
  \<open>transcode_file\<close> nor \<open>worker\<close> catches. The lock is released, nothing is logged, the
  original stays under its backup name, and the worker ends.
\<close>

theorem commit_failure_ends_the_worker:
  "run_job ex_cfg ex_ext_no_output ex_media_locked ''/data/a.mkv'' ''/data/a.mkv.transcode.lock'' =
     (Inl FileNotFoundError, [''/data/a.mkv.old'' \<mapsto> ''original bytes''])
   \<and> pool_step ex_cfg
        \<lparr>fsys = ex_media_locked, workers = [Holding ''/data/a.mkv'' ''/data/a.mkv.transcode.lock''], claims = [''/data/a.mkv''], attempts = []\<rparr>
        \<lparr>fsys = [''/data/a.mkv.transcode.lock'' \<mapsto> [], ''/data/a.mkv.old'' \<mapsto> ''original bytes''],
          workers = [Releasing ''/data/a.mkv.transcode.lock'' True], claims = [''/data/a.mkv''], attempts = [''/data/a.mkv'']\<rparr>
   \<and> pool_step ex_cfg
        \<lparr>fsys = [''/data/a.mkv.transcode.lock'' \<mapsto> [], ''/data/a.mkv.old'' \<mapsto> ''original bytes''],
          workers = [Releasing ''/data/a.mkv.transcode.lock'' True], claims = [''/data/a.mkv''], attempts = [''/data/a.mkv'']\<rparr>
        \<lparr>fsys = [''/data/a.mkv.old'' \<mapsto> ''original bytes''],
          workers = [Died], claims = [''/data/a.mkv''], attempts = [''/data/a.mkv'']\<rparr>"
proof -
  have p: "process_job ex_cfg ex_ext_no_output ex_media_locked ''/data/a.mkv'' =
     (Inl FileNotFoundError, [''/data/a.mkv.transcode.lock'' \<mapsto> [], ''/data/a.mkv.old'' \<mapsto> ''original bytes''])"
    by (simp add: process_job_def ex_transcode_no_output)
  have r: "release_item_lock [''/data/a.mkv.transcode.lock'' \<mapsto> [], ''/data/a.mkv.old'' \<mapsto> ''original bytes'']
             ''/data/a.mkv.transcode.lock'' = [''/data/a.mkv.old'' \<mapsto> ''original bytes'']"
    by (auto simp: release_item_lock_def os_path_exists_def os_remove_def)
  have 1: "run_job ex_cfg ex_ext_no_output ex_media_locked ''/data/a.mkv'' ''/data/a.mkv.transcode.lock'' =
     (Inl FileNotFoundError, [''/data/a.mkv.old'' \<mapsto> ''original bytes''])"
    by (simp add: run_job_def p r)
  have 2: "pool_step ex_cfg
        \<lparr>fsys = ex_media_locked, workers = [Holding ''/data/a.mkv'' ''/data/a.mkv.transcode.lock''], claims = [''/data/a.mkv''], attempts = []\<rparr>
        \<lparr>fsys = [''/data/a.mkv.transcode.lock'' \<mapsto> [], ''/data/a.mkv.old'' \<mapsto> ''original bytes''],
          workers = [Releasing ''/data/a.mkv.transcode.lock'' True], claims = [''/data/a.mkv''], attempts = [''/data/a.mkv'']\<rparr>"
    using step_process[of 0 "[Holding ''/data/a.mkv'' ''/data/a.mkv.transcode.lock'']" _ _ _ _ _ _ _
        "[''/data/a.mkv'']" "[]", OF _ _ p]
    by simp
  have 3: "pool_step ex_cfg
        \<lparr>fsys = [''/data/a.mkv.transcode.lock'' \<mapsto> [], ''/data/a.mkv.old'' \<mapsto> ''original bytes''],
          workers = [Releasing ''/data/a.mkv.transcode.lock'' True], claims = [''/data/a.mkv''], attempts = [''/data/a.mkv'']\<rparr>
        \<lparr>fsys = [''/data/a.mkv.old'' \<mapsto> ''original bytes''],
          workers = [Died], claims = [''/data/a.mkv''], attempts = [''/data/a.mkv'']\<rparr>"
    using step_release[of 0 "[Releasing ''/data/a.mkv.transcode.lock'' True]" "''/data/a.mkv.transcode.lock''" True
        ex_cfg "[''/data/a.mkv.transcode.lock'' \<mapsto> [], ''/data/a.mkv.old'' \<mapsto> ''original bytes'']"
        "[''/data/a.mkv'']" "[''/data/a.mkv'']"]
    by (simp add: r)
  from 1 2 3 show ?thesis by blast
qed



text \<open>
  C7: when the file exists and the detected codec is not in \<open>inefficient_codecs\<close>,
  \<open>transcode_file\<close> returns \<open>True\<close> and the file system is as it was: nothing is renamed.
  The worker then writes nothing either, so the failure log is not appended to.
\<close>

theorem efficient_codec_is_skipped:
  assumes "os_path_exists f p" and "get_video_codec ext f p = Some codec"
    and "codec \<notin> inefficient_codecs"
  shows "transcode_file cfg ext f p = (Inr True, f) \<and> process_job cfg ext f p = (Inr (), f)"
  using assms by (simp add: transcode_file_def process_job_def)

theorem efficient_codec_is_skipped_witness:
  "transcode_file ex_cfg ex_ext_hevc ex_media ''/data/a.mkv'' = (Inr True, ex_media)
   \<and> process_job ex_cfg ex_ext_hevc ex_media ''/data/a.mkv'' = (Inr (), ex_media)"
proof -
  have h1: "os_path_exists ex_media ''/data/a.mkv''" by (simp add: os_path_exists_def ex_media_def)
  have h2: "''hevc'' \<notin> inefficient_codecs" by (simp add: inefficient_codecs_def)
  from efficient_codec_is_skipped[OF h1 ex_codec_hevc h2] show ?thesis .
qed

text \<open>
  C10: when the job path is not an existing file, \<open>transcode_file\<close> returns \<open>False\<close> with the
  file system as it was, whatever the external processes would answer, and the worker
  appends the path, made relative to the base, and a line feed to the failure log and
  changes no other file.
\<close>

theorem missing_file_fails_at_once:
  assumes "\<not> os_path_exists f p"
  shows "transcode_file cfg ext f p = (Inr False, f)
     \<and> process_job cfg ext f p = (Inr (), log_failure cfg f (rel_of cfg p))
     \<and> log_failure cfg f (rel_of cfg p) (log_file cfg) =
         Some ((case f (log_file cfg) of None \<Rightarrow> [] | Some old \<Rightarrow> old) @ rel_of cfg p @ [CHR 0x0A])
     \<and> (\<forall>q. q \<noteq> log_file cfg \<longrightarrow> log_failure cfg f (rel_of cfg p) q = f q)"
  using assms by (simp add: transcode_file_def process_job_def log_failure_def)

theorem missing_file_fails_at_once_witness:
  "transcode_file ex_cfg ex_ext_hevc Map.empty ''/data/a.mkv'' = (Inr False, Map.empty)
   \<and> process_job ex_cfg ex_ext_hevc Map.empty ''/data/a.mkv'' = (Inr (), [''fail.log'' \<mapsto> ''a.mkv\<newline>''])"
proof -
  have h: "\<not> os_path_exists Map.empty ''/data/a.mkv''" by (simp add: os_path_exists_def)
  have l: "log_failure ex_cfg Map.empty ''a.mkv'' = [''fail.log'' \<mapsto> ''a.mkv\<newline>'']"
    by (simp add: log_failure_def ex_cfg_def)
  from missing_file_fails_at_once[OF h, of ex_cfg ex_ext_hevc] show ?thesis
    by (simp add: ex_rel l)
qed

section \<open>The invariant is kept by every step\<close>

lemma held_update:
  "w < length ws \<Longrightarrow> held (ws[w := x]) + mset (job_of (ws ! w)) = held ws + mset (job_of x)"
proof (induction ws arbitrary: w)
  case Nil
  then show ?case by simp
next
  case (Cons a ws)
  show ?case
  proof (cases w)
    case 0
    then show ?thesis by (simp add: held_def)
  next
    case (Suc v)
    with Cons.prems have "v < length ws" by simp
    from Cons.IH[OF this] show ?thesis using Suc by (simp add: held_def ac_simps)
  qed
qed

lemma held_update_same:
  "w < length ws \<Longrightarrow> job_of (ws ! w) = [] \<Longrightarrow> job_of x = [] \<Longrightarrow> held (ws[w := x]) = held ws"
  using held_update[of w ws x] by simp

lemma held_replicate: "held (replicate W Top) = {#}"
  by (induction W) (simp_all add: held_def)

lemma mset_del_at:
  "i < length xs \<Longrightarrow> mset (map g (del_at i xs)) + {#g (xs ! i)#} = mset (map g xs)"
proof -
  assume "i < length xs"
  then have "xs = take i xs @ xs ! i # drop (Suc i) xs" by (simp add: id_take_nth_drop)
  then have "mset (map g xs) = mset (map g (take i xs @ xs ! i # drop (Suc i) xs))" by simp
  then show ?thesis by (simp add: del_at_def)
qed

lemma pool_inv_initial:
  assumes "f0 (input_file cfg) = Some content0"
  shows "pool_inv cfg (read_lines content0) f0 (replicate W Top) []"
  unfolding pool_inv_def using assms by (auto simp: held_replicate)

lemma in_set_del_at:
  assumes "x \<in> set xs" "x \<noteq> xs ! i"
  shows "x \<in> set (del_at i xs)"
proof -
  from assms(1) obtain k where k: "k < length xs" "xs ! k = x" by (auto simp: in_set_conv_nth)
  with assms(2) have "k \<noteq> i" by auto
  then consider "k < i" | "i < k" by linarith
  then show ?thesis
  proof cases
    case 1
    then have "take i xs ! k = x" using k by simp
    moreover have "k < length (take i xs)" using 1 k by simp
    ultimately have "x \<in> set (take i xs)" using nth_mem by blast
    then show ?thesis by (simp add: del_at_def)
  next
    case 2
    then obtain d where d: "k = Suc i + d" using less_iff_Suc_add by auto
    then have "drop (Suc i) xs ! d = x" using k by simp
    moreover have "d < length (drop (Suc i) xs)" using d k by simp
    ultimately have "x \<in> set (drop (Suc i) xs)" using nth_mem by blast
    then show ?thesis by (simp add: del_at_def)
  qed
qed

lemma mset_move:
  fixes A D H S T :: "'a multiset"
  shows "A = D + {#j#} \<Longrightarrow> A + H + S = T \<Longrightarrow> D + (H + {#j#}) + S = T"
  by (simp add: ac_simps)

lemma lock_ne_update:
  assumes "\<forall>v < length ws. \<forall>l \<in> set (lock_of (ws ! v)). l \<noteq> p"
    and "\<forall>l \<in> set (lock_of x). l \<noteq> p"
  shows "\<forall>v < length (ws[w := x]). \<forall>l \<in> set (lock_of (ws[w := x] ! v)). l \<noteq> p"
proof (intro allI impI)
  fix v assume v: "v < length (ws[w := x])"
  show "\<forall>l \<in> set (lock_of (ws[w := x] ! v)). l \<noteq> p"
  proof (cases "v = w")
    case True
    then show ?thesis using v assms(2) by simp
  next
    case False
    then show ?thesis using v assms(1) by simp
  qed
qed

lemma pool_inv_acquire:
  assumes inv: "pool_inv cfg lines0 f ws as"
    and w: "w < length ws" "job_of (ws ! w) = []" "lock_of (ws ! w) = []"
    and acq: "acquire_next_job_from_list cfg f = (r, f')"
    and n: "job_of n = []" "lock_of n = []" "n \<noteq> Exited"
  shows "pool_inv cfg lines0 f' (ws[w := (case r of None \<Rightarrow> n | Some (j, l) \<Rightarrow> Holding j l)]) as"
proof -
  from inv obtain content where c: "f (input_file cfg) = Some content"
    and m: "mset (map (full_path_of cfg) (read_lines content)) + held ws + mset as
            = mset (map (full_path_of cfg) lines0)"
    and sub: "set (read_lines content) \<subseteq> set lines0"
    and lk: "\<forall>w < length ws. \<forall>l \<in> set (lock_of (ws ! w)). l \<noteq> input_file cfg"
    and ex: "Exited \<in> set ws \<longrightarrow> read_lines content = []"
    and emp: "read_lines content = [] \<longrightarrow> lines0 = [] \<or> content = []"
    and mk: "\<forall>l \<in> set lines0. f (lock_path_of cfg l) \<noteq> None \<longrightarrow>
              (\<exists>w < length ws. lock_path_of cfg l \<in> set (lock_of (ws ! w)))
            \<or> (\<exists>l' \<in> set (read_lines content). lock_path_of cfg l' = lock_path_of cfg l)"
    unfolding pool_inv_def by blast
  show ?thesis
  proof (cases r)
    case None
    let ?ws = "ws[w := n]"
    have hw: "held ?ws = held ws" using w n by (simp add: held_update_same)
    have lkw: "\<forall>v < length ?ws. \<forall>l \<in> set (lock_of (?ws ! v)). l \<noteq> input_file cfg"
      using lk n(2) by (intro lock_ne_update) auto
    have exw: "Exited \<in> set ?ws \<longrightarrow> Exited \<in> set ws"
      using n(3) set_update_subset_insert[of ws w n] by auto
    have holder: "\<And>p. (\<exists>v < length ws. p \<in> set (lock_of (ws ! v))) \<Longrightarrow>
        (\<exists>v < length ?ws. p \<in> set (lock_of (?ws ! v)))"
    proof -
      fix p assume "\<exists>v < length ws. p \<in> set (lock_of (ws ! v))"
      then obtain v where v: "v < length ws" "p \<in> set (lock_of (ws ! v))" by blast
      with w(3) have "v \<noteq> w" by auto
      with v show "\<exists>v < length ?ws. p \<in> set (lock_of (?ws ! v))" by (intro exI[of _ v]) simp
    qed
    show ?thesis
    proof (cases "read_lines content = []")
      case True
      with acq c have f': "f' = f(input_file cfg \<mapsto> [])"
        by (simp add: acquire_next_job_from_list_def)
      have same: "\<And>p. f' p \<noteq> None \<Longrightarrow> f p \<noteq> None" using f' c by (auto split: if_splits)
      show ?thesis unfolding pool_inv_def None option.case
      proof (intro exI[of _ "[]"] conjI)
        show "f' (input_file cfg) = Some []" using f' by simp
        show "mset (map (full_path_of cfg) (read_lines [])) + held ?ws + mset as
            = mset (map (full_path_of cfg) lines0)" using m True hw by (simp add: read_lines_Nil)
        show "set (read_lines []) \<subseteq> set lines0" by (simp add: read_lines_Nil)
        show "\<forall>v < length ?ws. \<forall>l \<in> set (lock_of (?ws ! v)). l \<noteq> input_file cfg" by (rule lkw)
        show "Exited \<in> set ?ws \<longrightarrow> read_lines [] = []" by (simp add: read_lines_Nil)
        show "read_lines [] = [] \<longrightarrow> lines0 = [] \<or> [] = []" by simp
        show "\<forall>l \<in> set lines0. f' (lock_path_of cfg l) \<noteq> None \<longrightarrow>
              (\<exists>v < length ?ws. lock_path_of cfg l \<in> set (lock_of (?ws ! v)))
            \<or> (\<exists>l' \<in> set (read_lines []). lock_path_of cfg l' = lock_path_of cfg l)"
          using mk True same holder by (metis empty_iff empty_set)
      qed
    next
      case False
      obtain sr g where sc: "scan_lines cfg f 0 (read_lines content) = (sr, g)" by fastforce
      with acq c False None have "sr = None" and "f' = g"
        by (auto simp: acquire_unfold split: option.splits)
      with sc scan_lines_None[of cfg f 0 "read_lines content" g] have f': "f' = f" by simp
      show ?thesis unfolding pool_inv_def None option.case
      proof (intro exI[of _ content] conjI)
        show "f' (input_file cfg) = Some content" using f' c by simp
        show "mset (map (full_path_of cfg) (read_lines content)) + held ?ws + mset as
            = mset (map (full_path_of cfg) lines0)" using m hw by simp
        show "set (read_lines content) \<subseteq> set lines0" by (rule sub)
        show "\<forall>v < length ?ws. \<forall>l \<in> set (lock_of (?ws ! v)). l \<noteq> input_file cfg" by (rule lkw)
        show "Exited \<in> set ?ws \<longrightarrow> read_lines content = []" using ex exw by blast
        show "read_lines content = [] \<longrightarrow> lines0 = [] \<or> content = []" by (rule emp)
        show "\<forall>l \<in> set lines0. f' (lock_path_of cfg l) \<noteq> None \<longrightarrow>
              (\<exists>v < length ?ws. lock_path_of cfg l \<in> set (lock_of (?ws ! v)))
            \<or> (\<exists>l' \<in> set (read_lines content). lock_path_of cfg l' = lock_path_of cfg l)"
          using mk f' holder by blast
      qed
    qed
  next
    case (Some jl)
    then obtain j l where r: "r = Some (j, l)" by (cases jl) auto
    let ?ls = "read_lines content"
    from acquire_claim[OF c acq[unfolded r]] obtain i where i: "i < length ?ls"
      "f (lock_path_of cfg (?ls ! i)) = None"
      "j = full_path_of cfg (?ls ! i)" "l = lock_path_of cfg (?ls ! i)"
      "f' = (f(l \<mapsto> []))(input_file cfg \<mapsto> write_lines (del_at i ?ls))" by blast
    let ?ws = "ws[w := Holding j l]"
    let ?now = "write_lines (del_at i ?ls)"
    have rd: "read_lines ?now = del_at i ?ls" by (rule read_write_del_at)
    have lne: "l \<noteq> input_file cfg" using c i(2,4) by auto
    have ne: "?ls \<noteq> []" using i(1) by auto
    have hw: "held ?ws = held ws + {#j#}" using held_update[of w ws "Holding j l"] w by simp
    show ?thesis unfolding pool_inv_def r option.case prod.case
    proof (intro exI[of _ ?now] conjI)
      show "f' (input_file cfg) = Some ?now" using i(5) by simp
      show "mset (map (full_path_of cfg) (read_lines ?now)) + held ?ws + mset as
            = mset (map (full_path_of cfg) lines0)"
      proof -
        have e1: "mset (map (full_path_of cfg) ?ls) = mset (map (full_path_of cfg) (del_at i ?ls)) + {#j#}"
          using mset_del_at[OF i(1), of "full_path_of cfg"] i(3) by simp
        have "mset (map (full_path_of cfg) (del_at i ?ls)) + (held ws + {#j#}) + mset as
            = mset (map (full_path_of cfg) lines0)"
          using e1 m by (rule mset_move)
        then show ?thesis unfolding hw rd .
      qed
      show "set (read_lines ?now) \<subseteq> set lines0" using sub set_del_at[of i ?ls] rd by auto
      show "\<forall>v < length ?ws. \<forall>p \<in> set (lock_of (?ws ! v)). p \<noteq> input_file cfg"
        using lk lne by (intro lock_ne_update) auto
      show "Exited \<in> set ?ws \<longrightarrow> read_lines ?now = []"
      proof
        assume "Exited \<in> set ?ws"
        then have "Exited \<in> set ws" using set_update_subset_insert[of ws w "Holding j l"] by auto
        with ex ne show "read_lines ?now = []" by simp
      qed
      show "read_lines ?now = [] \<longrightarrow> lines0 = [] \<or> ?now = []"
        using rd by (auto simp: write_lines_def)
      show "\<forall>l0 \<in> set lines0. f' (lock_path_of cfg l0) \<noteq> None \<longrightarrow>
              (\<exists>v < length ?ws. lock_path_of cfg l0 \<in> set (lock_of (?ws ! v)))
            \<or> (\<exists>l' \<in> set (read_lines ?now). lock_path_of cfg l' = lock_path_of cfg l0)"
      proof (intro ballI impI)
        fix l0 assume l0: "l0 \<in> set lines0" and e: "f' (lock_path_of cfg l0) \<noteq> None"
        show "(\<exists>v < length ?ws. lock_path_of cfg l0 \<in> set (lock_of (?ws ! v)))
            \<or> (\<exists>l' \<in> set (read_lines ?now). lock_path_of cfg l' = lock_path_of cfg l0)"
        proof (cases "lock_path_of cfg l0 = l")
          case True
          then have "lock_path_of cfg l0 \<in> set (lock_of (?ws ! w))" using w(1) by simp
          then show ?thesis using w(1) by auto
        next
          case False
          then have "f (lock_path_of cfg l0) \<noteq> None" using e i(5) c by (auto split: if_splits)
          with mk l0 consider
            (holder) v where "v < length ws" "lock_path_of cfg l0 \<in> set (lock_of (ws ! v))"
          | (listed) l' where "l' \<in> set ?ls" "lock_path_of cfg l' = lock_path_of cfg l0" by blast
          then show ?thesis
          proof cases
            case holder
            with w(3) have "v \<noteq> w" by auto
            with holder have "v < length ?ws \<and> lock_path_of cfg l0 \<in> set (lock_of (?ws ! v))" by simp
            then show ?thesis by blast
          next
            case listed
            with False i(4) have "l' \<noteq> ?ls ! i" by auto
            with listed(1) have "l' \<in> set (del_at i ?ls)" by (rule in_set_del_at)
            with listed(2) rd show ?thesis by auto
          qed
        qed
      qed
    qed
  qed
qed

lemma holder_update:
  assumes "v < length ws" "p \<in> set (lock_of (ws ! v))"
    and "v = w \<longrightarrow> p \<in> set (lock_of x)"
  shows "\<exists>u < length (ws[w := x]). p \<in> set (lock_of (ws[w := x] ! u))"
proof (cases "v = w")
  case True
  with assms show ?thesis by (intro exI[of _ v]) simp
next
  case False
  with assms show ?thesis by (intro exI[of _ v]) simp
qed

lemma exited_update: "Exited \<in> set (ws[w := x]) \<Longrightarrow> x \<noteq> Exited \<Longrightarrow> Exited \<in> set ws"
  using set_update_subset_insert[of ws w x] by auto

lemma pool_inv_check:
  assumes inv: "pool_inv cfg lines0 f ws as" and w: "w < length ws" "ws ! w = Check"
  shows "pool_inv cfg lines0 f (ws[w := (if remaining cfg f then Top else Exited)]) as"
proof -
  let ?x = "if remaining cfg f then Top else Exited"
  let ?ws = "ws[w := ?x]"
  from inv obtain content where c: "f (input_file cfg) = Some content"
    and m: "mset (map (full_path_of cfg) (read_lines content)) + held ws + mset as
            = mset (map (full_path_of cfg) lines0)"
    and sub: "set (read_lines content) \<subseteq> set lines0"
    and lk: "\<forall>w < length ws. \<forall>l \<in> set (lock_of (ws ! w)). l \<noteq> input_file cfg"
    and ex: "Exited \<in> set ws \<longrightarrow> read_lines content = []"
    and emp: "read_lines content = [] \<longrightarrow> lines0 = [] \<or> content = []"
    and mk: "\<forall>l \<in> set lines0. f (lock_path_of cfg l) \<noteq> None \<longrightarrow>
              (\<exists>w < length ws. lock_path_of cfg l \<in> set (lock_of (ws ! w)))
            \<or> (\<exists>l' \<in> set (read_lines content). lock_path_of cfg l' = lock_path_of cfg l)"
    unfolding pool_inv_def by blast
  have hw: "held ?ws = held ws" using w by (intro held_update_same) auto
  have lkw: "\<forall>v < length ?ws. \<forall>l \<in> set (lock_of (?ws ! v)). l \<noteq> input_file cfg"
    using lk by (intro lock_ne_update) auto
  have exw: "Exited \<in> set ?ws \<longrightarrow> read_lines content = []"
  proof
    assume e: "Exited \<in> set ?ws"
    show "read_lines content = []"
    proof (cases "remaining cfg f")
      case True
      then have "Exited \<in> set ws" using e exited_update[of ws w Top] by simp
      with ex show ?thesis by simp
    next
      case False
      then show ?thesis using c by (simp add: remaining_def)
    qed
  qed
  have holder: "\<And>p. (\<exists>v < length ws. p \<in> set (lock_of (ws ! v))) \<Longrightarrow>
        (\<exists>v < length ?ws. p \<in> set (lock_of (?ws ! v)))"
  proof -
    fix p assume "\<exists>v < length ws. p \<in> set (lock_of (ws ! v))"
    then obtain v where v: "v < length ws" "p \<in> set (lock_of (ws ! v))" by blast
    with w(2) have "v \<noteq> w" by auto
    with v show "\<exists>v < length ?ws. p \<in> set (lock_of (?ws ! v))" by (intro holder_update[of v]) auto
  qed
  show ?thesis unfolding pool_inv_def
  proof (intro exI[of _ content] conjI)
    show "f (input_file cfg) = Some content" by (rule c)
    show "mset (map (full_path_of cfg) (read_lines content)) + held ?ws + mset as
            = mset (map (full_path_of cfg) lines0)" using m hw by simp
    show "set (read_lines content) \<subseteq> set lines0" by (rule sub)
    show "\<forall>v < length ?ws. \<forall>l \<in> set (lock_of (?ws ! v)). l \<noteq> input_file cfg" by (rule lkw)
    show "Exited \<in> set ?ws \<longrightarrow> read_lines content = []" by (rule exw)
    show "read_lines content = [] \<longrightarrow> lines0 = [] \<or> content = []" by (rule emp)
    show "\<forall>l \<in> set lines0. f (lock_path_of cfg l) \<noteq> None \<longrightarrow>
              (\<exists>v < length ?ws. lock_path_of cfg l \<in> set (lock_of (?ws ! v)))
            \<or> (\<exists>l' \<in> set (read_lines content). lock_path_of cfg l' = lock_path_of cfg l)"
      using mk holder by blast
  qed
qed

lemma pool_inv_process:
  assumes inv: "pool_inv cfg lines0 f ws as" and w: "w < length ws" "ws ! w = Holding j l"
    and sep: "separate_files cfg lines0"
    and p: "process_job cfg ext f j = (r, f')"
  shows "pool_inv cfg lines0 f' (ws[w := Releasing l d]) (as @ [j])"
proof -
  let ?ws = "ws[w := Releasing l d]"
  from inv obtain content where c: "f (input_file cfg) = Some content"
    and m: "mset (map (full_path_of cfg) (read_lines content)) + held ws + mset as
            = mset (map (full_path_of cfg) lines0)"
    and sub: "set (read_lines content) \<subseteq> set lines0"
    and lk: "\<forall>w < length ws. \<forall>l \<in> set (lock_of (ws ! w)). l \<noteq> input_file cfg"
    and ex: "Exited \<in> set ws \<longrightarrow> read_lines content = []"
    and emp: "read_lines content = [] \<longrightarrow> lines0 = [] \<or> content = []"
    and mk: "\<forall>l \<in> set lines0. f (lock_path_of cfg l) \<noteq> None \<longrightarrow>
              (\<exists>w < length ws. lock_path_of cfg l \<in> set (lock_of (ws ! w)))
            \<or> (\<exists>l' \<in> set (read_lines content). lock_path_of cfg l' = lock_path_of cfg l)"
    unfolding pool_inv_def by blast
  have hw: "held ws = held ?ws + {#j#}" using held_update[of w ws "Releasing l d"] w by simp
  then have "j \<in># held ws" by simp
  then have "j \<in># mset (map (full_path_of cfg) lines0)" using m by (metis union_iff)
  then obtain l1 where l1: "l1 \<in> set lines0" "j = full_path_of cfg l1" by auto
  have fr_in: "input_file cfg \<notin> set (job_files cfg j)"
    using sep l1 by (auto simp: separate_files_def)
  have fr_lk: "\<And>l0. l0 \<in> set lines0 \<Longrightarrow> lock_path_of cfg l0 \<notin> set (job_files cfg j)"
    using sep l1 by (auto simp: separate_files_def)
  have same_in: "f' (input_file cfg) = f (input_file cfg)"
    using process_job_frame[OF p fr_in] .
  have same_lk: "\<And>l0. l0 \<in> set lines0 \<Longrightarrow> f' (lock_path_of cfg l0) = f (lock_path_of cfg l0)"
    using process_job_frame[OF p fr_lk] .
  have lkw: "\<forall>v < length ?ws. \<forall>p \<in> set (lock_of (?ws ! v)). p \<noteq> input_file cfg"
    using lk w by (intro lock_ne_update) auto
  have holder: "\<And>p. (\<exists>v < length ws. p \<in> set (lock_of (ws ! v))) \<Longrightarrow>
        (\<exists>v < length ?ws. p \<in> set (lock_of (?ws ! v)))"
  proof -
    fix p assume "\<exists>v < length ws. p \<in> set (lock_of (ws ! v))"
    then obtain v where v: "v < length ws" "p \<in> set (lock_of (ws ! v))" by blast
    then show "\<exists>v < length ?ws. p \<in> set (lock_of (?ws ! v))"
      using w(2) by (intro holder_update[of v]) auto
  qed
  show ?thesis unfolding pool_inv_def
  proof (intro exI[of _ content] conjI)
    show "f' (input_file cfg) = Some content" using same_in c by simp
    show "mset (map (full_path_of cfg) (read_lines content)) + held ?ws + mset (as @ [j])
            = mset (map (full_path_of cfg) lines0)" using m hw by (simp add: ac_simps)
    show "set (read_lines content) \<subseteq> set lines0" by (rule sub)
    show "\<forall>v < length ?ws. \<forall>l \<in> set (lock_of (?ws ! v)). l \<noteq> input_file cfg" by (rule lkw)
    show "Exited \<in> set ?ws \<longrightarrow> read_lines content = []"
      using ex exited_update[of ws w "Releasing l d"] by auto
    show "read_lines content = [] \<longrightarrow> lines0 = [] \<or> content = []" by (rule emp)
    show "\<forall>l \<in> set lines0. f' (lock_path_of cfg l) \<noteq> None \<longrightarrow>
              (\<exists>v < length ?ws. lock_path_of cfg l \<in> set (lock_of (?ws ! v)))
            \<or> (\<exists>l' \<in> set (read_lines content). lock_path_of cfg l' = lock_path_of cfg l)"
      using mk holder same_lk by metis
  qed
qed

lemma release_item_lock_eq: "release_item_lock f l = (if l = [] then f else f(l := None))"
  by (auto simp: release_item_lock_def os_path_exists_def os_remove_def split: option.splits)

lemma lock_path_of_ne: "lock_path_of cfg l \<noteq> []"
  by (simp add: lock_path_of_def lock_suffix_def)

lemma pool_inv_release:
  assumes inv: "pool_inv cfg lines0 f ws as" and w: "w < length ws" "ws ! w = Releasing l d"
    and x: "job_of x = []" "lock_of x = []" "x \<noteq> Exited"
  shows "pool_inv cfg lines0 (release_item_lock f l) (ws[w := x]) as"
proof -
  let ?ws = "ws[w := x]"
  let ?f = "release_item_lock f l"
  from inv obtain content where c: "f (input_file cfg) = Some content"
    and m: "mset (map (full_path_of cfg) (read_lines content)) + held ws + mset as
            = mset (map (full_path_of cfg) lines0)"
    and sub: "set (read_lines content) \<subseteq> set lines0"
    and lk: "\<forall>w < length ws. \<forall>l \<in> set (lock_of (ws ! w)). l \<noteq> input_file cfg"
    and ex: "Exited \<in> set ws \<longrightarrow> read_lines content = []"
    and emp: "read_lines content = [] \<longrightarrow> lines0 = [] \<or> content = []"
    and mk: "\<forall>l \<in> set lines0. f (lock_path_of cfg l) \<noteq> None \<longrightarrow>
              (\<exists>w < length ws. lock_path_of cfg l \<in> set (lock_of (ws ! w)))
            \<or> (\<exists>l' \<in> set (read_lines content). lock_path_of cfg l' = lock_path_of cfg l)"
    unfolding pool_inv_def by blast
  have lne: "l \<noteq> input_file cfg" using lk w by auto
  have hw: "held ?ws = held ws" using w x by (intro held_update_same) auto
  have lkw: "\<forall>v < length ?ws. \<forall>p \<in> set (lock_of (?ws ! v)). p \<noteq> input_file cfg"
    using lk x by (intro lock_ne_update) auto
  show ?thesis unfolding pool_inv_def
  proof (intro exI[of _ content] conjI)
    show "?f (input_file cfg) = Some content" using c lne by (simp add: release_item_lock_eq)
    show "mset (map (full_path_of cfg) (read_lines content)) + held ?ws + mset as
            = mset (map (full_path_of cfg) lines0)" using m hw by simp
    show "set (read_lines content) \<subseteq> set lines0" by (rule sub)
    show "\<forall>v < length ?ws. \<forall>l \<in> set (lock_of (?ws ! v)). l \<noteq> input_file cfg" by (rule lkw)
    show "Exited \<in> set ?ws \<longrightarrow> read_lines content = []"
      using ex x(3) exited_update[of ws w x] by auto
    show "read_lines content = [] \<longrightarrow> lines0 = [] \<or> content = []" by (rule emp)
    show "\<forall>l0 \<in> set lines0. ?f (lock_path_of cfg l0) \<noteq> None \<longrightarrow>
              (\<exists>v < length ?ws. lock_path_of cfg l0 \<in> set (lock_of (?ws ! v)))
            \<or> (\<exists>l' \<in> set (read_lines content). lock_path_of cfg l' = lock_path_of cfg l0)"
    proof (intro ballI impI)
      fix l0 assume l0: "l0 \<in> set lines0" and e: "?f (lock_path_of cfg l0) \<noteq> None"
      have ne: "lock_path_of cfg l0 \<noteq> l"
        using e lock_path_of_ne[of cfg l0] by (auto simp: release_item_lock_eq split: if_splits)
      have "f (lock_path_of cfg l0) \<noteq> None"
        using e by (auto simp: release_item_lock_eq split: if_splits)
      with mk l0 consider
        (holder) v where "v < length ws" "lock_path_of cfg l0 \<in> set (lock_of (ws ! v))"
      | (listed) l' where "l' \<in> set (read_lines content)" "lock_path_of cfg l' = lock_path_of cfg l0"
        by blast
      then show "(\<exists>v < length ?ws. lock_path_of cfg l0 \<in> set (lock_of (?ws ! v)))
            \<or> (\<exists>l' \<in> set (read_lines content). lock_path_of cfg l' = lock_path_of cfg l0)"
      proof cases
        case holder
        with ne w(2) have "v \<noteq> w" by auto
        with holder show ?thesis using holder_update[of v ws _ w x] by blast
      next
        case listed
        then show ?thesis by blast
      qed
    qed
  qed
qed

lemma pool_step_inv:
  assumes "pool_step cfg s t" and "separate_files cfg lines0"
    and "pool_inv cfg lines0 (fsys s) (workers s) (attempts s)"
  shows "pool_inv cfg lines0 (fsys t) (workers t) (attempts t) \<and> length (workers t) = length (workers s)"
  using assms
proof (induction rule: pool_step.induct)
  case (acquire_first w s r f')
  then show ?case using pool_inv_acquire[of cfg lines0 "fsys s" "workers s" "attempts s" w r f' Retry]
    by simp
next
  case (acquire_second w s r f')
  then show ?case using pool_inv_acquire[of cfg lines0 "fsys s" "workers s" "attempts s" w r f' Check]
    by simp
next
  case (check_list w s)
  then show ?case using pool_inv_check[of cfg lines0 "fsys s" "workers s" "attempts s" w] by simp
next
  case (process w s j l ext r f')
  then show ?case
    using pool_inv_process[of cfg lines0 "fsys s" "workers s" "attempts s" w j l ext r f' "isl r"]
    by simp
next
  case (release w s l d)
  then show ?case
    using pool_inv_release[of cfg lines0 "fsys s" "workers s" "attempts s" w l d "if d then Died else Top"]
    by simp
qed

lemma reachable_inv:
  assumes "reachable cfg f0 W s" and "f0 (input_file cfg) = Some content0"
    and "separate_files cfg (read_lines content0)"
  shows "pool_inv cfg (read_lines content0) (fsys s) (workers s) (attempts s) \<and> length (workers s) = W"
  using assms
proof (induction rule: reachable.induct)
  case start
  then show ?case using pool_inv_initial[of f0 cfg content0 W] by (simp add: initial_pool_def)
next
  case (step s t)
  then show ?case using pool_step_inv[of cfg s t "read_lines content0"] by simp
qed

section \<open>Claims on complete runs of the pool\<close>



lemma held_none: "\<forall>w < length ws. job_of (ws ! w) = [] \<Longrightarrow> held ws = {#}"
proof (induction ws)
  case Nil
  show ?case by (simp add: held_def)
next
  case (Cons a ws)
  from Cons.prems have "job_of a = []" by auto
  moreover from Cons.prems have "\<forall>w < length ws. job_of (ws ! w) = []" by auto
  ultimately show ?case using Cons.IH by (simp add: held_def)
qed

lemma ex_acquire_run:
  "acquire_next_job_from_list ex_cfg ex_fs_run =
     (Some (''/data/a.mkv'', ''/data/a.mkv.transcode.lock''), ex_fs_claimed)"
proof -
  have "acquire_next_job_from_list ex_cfg ex_fs_run =
     (Some (''/data/a.mkv'', ''/data/a.mkv.transcode.lock''),
      (ex_fs_run(''/data/a.mkv.transcode.lock'' \<mapsto> []))(''list.txt'' \<mapsto> []))"
    by (simp add: acquire_next_job_from_list_def ex_cfg_def ex_fs_run_def ex_lines_one make_item_lock_cases
      clean_rel_def strip_by_def lstrip_by_def rstrip_by_def dquote_def squote_def sep_def os_path_join_def
      lock_suffix_def write_lines_def del_at_def Let_def)
  moreover have "(ex_fs_run(''/data/a.mkv.transcode.lock'' \<mapsto> []))(''list.txt'' \<mapsto> []) = ex_fs_claimed"
    by (auto simp: ex_fs_run_def ex_fs_claimed_def fun_eq_iff)
  ultimately show ?thesis by simp
qed

lemma ex_process_run:
  "process_job ex_cfg ex_ext_hevc ex_fs_claimed ''/data/a.mkv'' = (Inr (), ex_fs_claimed)"
proof -
  have "os_path_exists ex_fs_claimed ''/data/a.mkv''" by (simp add: os_path_exists_def ex_fs_claimed_def)
  moreover have "get_video_codec ex_ext_hevc ex_fs_claimed ''/data/a.mkv'' = Some ''hevc''"
    by (simp add: get_video_codec_def ex_ext_hevc_def ex_fs_claimed_def ex_lower3)
  moreover have "''hevc'' \<notin> inefficient_codecs" by (simp add: inefficient_codecs_def)
  ultimately show ?thesis by (simp add: transcode_file_def process_job_def)
qed

lemma ex_release_run: "release_item_lock ex_fs_claimed ''/data/a.mkv.transcode.lock'' = ex_fs_done"
  by (auto simp: release_item_lock_eq ex_fs_claimed_def ex_fs_done_def fun_eq_iff)

lemma ex_acquire_done: "acquire_next_job_from_list ex_cfg ex_fs_done = (None, ex_fs_done)"
proof -
  have "ex_fs_done (input_file ex_cfg) = Some []" by (simp add: ex_fs_done_def ex_input)
  then have "acquire_next_job_from_list ex_cfg ex_fs_done = (None, ex_fs_done(input_file ex_cfg \<mapsto> []))"
    by (simp add: acquire_next_job_from_list_def read_lines_Nil)
  moreover have "ex_fs_done(input_file ex_cfg \<mapsto> []) = ex_fs_done"
    by (auto simp: ex_fs_done_def ex_input fun_eq_iff)
  ultimately show ?thesis by simp
qed

lemma ex_remaining_done: "\<not> remaining ex_cfg ex_fs_done"
  by (simp add: remaining_def ex_fs_done_def ex_input read_lines_Nil)

lemma ex_run: "reachable ex_cfg ex_fs_run 1 ex_final"
proof -
  let ?j = "''/data/a.mkv''" and ?l = "''/data/a.mkv.transcode.lock''"
  have r0: "reachable ex_cfg ex_fs_run 1 \<lparr>fsys = ex_fs_run, workers = [Top], claims = [], attempts = []\<rparr>"
    using reachable.start[of ex_cfg ex_fs_run 1] by (simp add: initial_pool_def)
  have s1: "pool_step ex_cfg \<lparr>fsys = ex_fs_run, workers = [Top], claims = [], attempts = []\<rparr>
      \<lparr>fsys = ex_fs_claimed, workers = [Holding ?j ?l], claims = [?j], attempts = []\<rparr>"
    using step_acquire_first[of 0 "[Top]" ex_cfg ex_fs_run _ _ "[]" "[]", OF _ _ ex_acquire_run]
    by (simp add: claimed_by_def)
  have s2: "pool_step ex_cfg \<lparr>fsys = ex_fs_claimed, workers = [Holding ?j ?l], claims = [?j], attempts = []\<rparr>
      \<lparr>fsys = ex_fs_claimed, workers = [Releasing ?l False], claims = [?j], attempts = [?j]\<rparr>"
    using step_process[of 0 "[Holding ?j ?l]" ?j ?l ex_cfg ex_ext_hevc ex_fs_claimed _ _ "[?j]" "[]", OF _ _ ex_process_run]
    by simp
  have s3: "pool_step ex_cfg \<lparr>fsys = ex_fs_claimed, workers = [Releasing ?l False], claims = [?j], attempts = [?j]\<rparr>
      \<lparr>fsys = ex_fs_done, workers = [Top], claims = [?j], attempts = [?j]\<rparr>"
    using step_release[of 0 "[Releasing ?l False]" ?l False ex_cfg ex_fs_claimed "[?j]" "[?j]"]
    by (simp add: ex_release_run)
  have s4: "pool_step ex_cfg \<lparr>fsys = ex_fs_done, workers = [Top], claims = [?j], attempts = [?j]\<rparr>
      \<lparr>fsys = ex_fs_done, workers = [Retry], claims = [?j], attempts = [?j]\<rparr>"
    using step_acquire_first[of 0 "[Top]" ex_cfg ex_fs_done _ _ "[?j]" "[?j]", OF _ _ ex_acquire_done]
    by (simp add: claimed_by_def)
  have s5: "pool_step ex_cfg \<lparr>fsys = ex_fs_done, workers = [Retry], claims = [?j], attempts = [?j]\<rparr>
      \<lparr>fsys = ex_fs_done, workers = [Check], claims = [?j], attempts = [?j]\<rparr>"
    using step_acquire_second[of 0 "[Retry]" ex_cfg ex_fs_done _ _ "[?j]" "[?j]", OF _ _ ex_acquire_done]
    by (simp add: claimed_by_def)
  have s6: "pool_step ex_cfg \<lparr>fsys = ex_fs_done, workers = [Check], claims = [?j], attempts = [?j]\<rparr>
      \<lparr>fsys = ex_fs_done, workers = [Exited], claims = [?j], attempts = [?j]\<rparr>"
    using step_check_list[of 0 "[Check]" ex_cfg ex_fs_done "[?j]" "[?j]"]
    by (simp add: ex_remaining_done)
  from r0 s1 s2 s3 s4 s5 s6 show ?thesis
    unfolding ex_final_def by (meson reachable.step)
qed

lemma ex_separate: "separate_files ex_cfg [''a.mkv'']"
  by code_simp



lemma all_exited_facts:
  assumes "reachable cfg f0 W s" and "f0 (input_file cfg) = Some content0"
    and "separate_files cfg (read_lines content0)"
    and "\<forall>w < W. job_of (workers s ! w) = [] \<and> lock_of (workers s ! w) = []"
    and "\<exists>w < W. workers s ! w = Exited"
  shows "\<exists>content. fsys s (input_file cfg) = Some content \<and> read_lines content = []
     \<and> (read_lines content0 \<noteq> [] \<longrightarrow> content = [])
     \<and> mset (attempts s) = mset (map (full_path_of cfg) (read_lines content0))
     \<and> (\<forall>l \<in> set (read_lines content0). fsys s (lock_path_of cfg l) = None)"
proof -
  from reachable_inv[OF assms(1,2,3)]
  have inv: "pool_inv cfg (read_lines content0) (fsys s) (workers s) (attempts s)"
    and len: "length (workers s) = W" by simp_all
  from inv obtain content where c: "fsys s (input_file cfg) = Some content"
    and m: "mset (map (full_path_of cfg) (read_lines content)) + held (workers s) + mset (attempts s)
            = mset (map (full_path_of cfg) (read_lines content0))"
    and ex: "Exited \<in> set (workers s) \<longrightarrow> read_lines content = []"
    and emp: "read_lines content = [] \<longrightarrow> read_lines content0 = [] \<or> content = []"
    and mk: "\<forall>l \<in> set (read_lines content0). fsys s (lock_path_of cfg l) \<noteq> None \<longrightarrow>
              (\<exists>w < length (workers s). lock_path_of cfg l \<in> set (lock_of (workers s ! w)))
            \<or> (\<exists>l' \<in> set (read_lines content). lock_path_of cfg l' = lock_path_of cfg l)"
    unfolding pool_inv_def by blast
  have "Exited \<in> set (workers s)" using assms(5) len nth_mem by metis
  with ex have e: "read_lines content = []" by simp
  have h: "held (workers s) = {#}" using assms(4) len by (intro held_none) simp
  have "\<forall>l \<in> set (read_lines content0). fsys s (lock_path_of cfg l) = None"
  proof (rule ccontr)
    assume "\<not> (\<forall>l \<in> set (read_lines content0). fsys s (lock_path_of cfg l) = None)"
    then obtain l where l: "l \<in> set (read_lines content0)" "fsys s (lock_path_of cfg l) \<noteq> None" by blast
    with mk e obtain w where "w < length (workers s)" "lock_path_of cfg l \<in> set (lock_of (workers s ! w))"
      by auto
    with assms(4) len show False by auto
  qed
  with c e emp m h show ?thesis by auto
qed



text \<open>
  C6: \<open>release_item_lock\<close> is idempotent, returns the state unchanged when the marker is
  absent (it cannot raise: every exception is swallowed), and leaves no marker at a
  non-empty lock path. \<open>run_job\<close>, the \<open>try\<close> with its \<open>finally\<close>, ends with the release
  whatever the body did, also when an exception goes through. In a state of the pool where
  every worker has ended and at least one has returned from \<open>worker\<close>, no marker of a listed
  line exists.
\<close>

theorem lock_is_released_on_every_path:
  "release_item_lock (release_item_lock f l) l = release_item_lock f l
   \<and> (\<not> os_path_exists f l \<longrightarrow> release_item_lock f l = f)
   \<and> (l \<noteq> [] \<longrightarrow> \<not> os_path_exists (release_item_lock f l) l)
   \<and> snd (run_job cfg ext f j l) = release_item_lock (snd (process_job cfg ext f j)) l
   \<and> (l \<noteq> [] \<longrightarrow> \<not> os_path_exists (snd (run_job cfg ext f j l)) l)
   \<and> (reachable cfg f0 W s \<and> f0 (input_file cfg) = Some content0
        \<and> separate_files cfg (read_lines content0)
        \<and> (\<forall>w < W. workers s ! w = Exited \<or> workers s ! w = Died)
        \<and> (\<exists>w < W. workers s ! w = Exited) \<longrightarrow>
      (\<forall>l0 \<in> set (read_lines content0). \<not> os_path_exists (fsys s) (lock_path_of cfg l0)))"
proof (intro conjI impI)
  show "release_item_lock (release_item_lock f l) l = release_item_lock f l"
    by (simp add: release_item_lock_eq)
  show "release_item_lock f l = f" if "\<not> os_path_exists f l"
    using that by (simp add: release_item_lock_def)
  show "\<not> os_path_exists (release_item_lock f l) l" if "l \<noteq> []"
    using that by (simp add: release_item_lock_eq os_path_exists_def)
  show r: "snd (run_job cfg ext f j l) = release_item_lock (snd (process_job cfg ext f j)) l"
    by (simp add: run_job_def split: prod.splits)
  show "\<not> os_path_exists (snd (run_job cfg ext f j l)) l" if "l \<noteq> []"
    using that unfolding r by (simp add: release_item_lock_eq os_path_exists_def)
  show "\<forall>l0 \<in> set (read_lines content0). \<not> os_path_exists (fsys s) (lock_path_of cfg l0)"
    if a: "reachable cfg f0 W s \<and> f0 (input_file cfg) = Some content0
        \<and> separate_files cfg (read_lines content0)
        \<and> (\<forall>w < W. workers s ! w = Exited \<or> workers s ! w = Died)
        \<and> (\<exists>w < W. workers s ! w = Exited)"
  proof -
    from a have "\<forall>w < W. job_of (workers s ! w) = [] \<and> lock_of (workers s ! w) = []" by auto
    with a all_exited_facts[of cfg f0 W s content0] show ?thesis
      by (auto simp: os_path_exists_def)
  qed
qed

theorem lock_is_released_on_every_path_witness:
  "\<not> os_path_exists (snd (run_job ex_cfg ex_ext_hevc ex_fs_claimed ''/data/a.mkv'' ''/data/a.mkv.transcode.lock''))
       ''/data/a.mkv.transcode.lock''
   \<and> release_item_lock ex_fs_done ''/data/a.mkv.transcode.lock'' = ex_fs_done
   \<and> \<not> os_path_exists (fsys ex_final) (lock_path_of ex_cfg ''a.mkv'')"
proof -
  let ?l = "''/data/a.mkv.transcode.lock''"
  have h1: "?l \<noteq> []" by simp
  have h2: "\<not> os_path_exists ex_fs_done ?l" by (simp add: os_path_exists_def ex_fs_done_def)
  have h3: "reachable ex_cfg ex_fs_run 1 ex_final \<and> ex_fs_run (input_file ex_cfg) = Some ''a.mkv\<newline>''
        \<and> separate_files ex_cfg (read_lines ''a.mkv\<newline>'')
        \<and> (\<forall>w < (1::nat). workers ex_final ! w = Exited \<or> workers ex_final ! w = Died)
        \<and> (\<exists>w < (1::nat). workers ex_final ! w = Exited)"
    using ex_run by (simp add: ex_fs_run_def ex_input ex_lines_one ex_separate ex_final_def)
  from lock_is_released_on_every_path[of ex_fs_claimed ?l ex_cfg ex_ext_hevc "''/data/a.mkv''" ex_fs_run 1 ex_final "''a.mkv\<newline>''"]
    h1 have 1: "\<not> os_path_exists (snd (run_job ex_cfg ex_ext_hevc ex_fs_claimed ''/data/a.mkv'' ?l)) ?l"
    by blast
  from lock_is_released_on_every_path[of ex_fs_done ?l ex_cfg ex_ext_hevc "''/data/a.mkv''" ex_fs_run 1 ex_final "''a.mkv\<newline>''"]
    h2 h3 have 2: "release_item_lock ex_fs_done ?l = ex_fs_done"
    and 3: "\<forall>l0 \<in> set (read_lines ''a.mkv\<newline>''). \<not> os_path_exists (fsys ex_final) (lock_path_of ex_cfg l0)"
    by blast+
  from 3 have "\<not> os_path_exists (fsys ex_final) (lock_path_of ex_cfg ''a.mkv'')"
    by (simp add: ex_lines_one)
  with 1 2 show ?thesis by blast
qed

end
